theory Spec2Isabelle
  imports Complex_Main "HOL-Library.Word" "HOL-Library.Sublist"
begin

section \<open>JavaScript values\<close>

text \<open>
  A JavaScript string is a sequence of UTF-16 code units; \<open>length\<close>, \<open>slice\<close>,
  \<open>split\<close>, \<open>trim\<close> and \<open>+\<close> all work on code units. \<open>js\<close> embeds an ASCII
  literal of the source.
\<close>

type_synonym jsstring = "16 word list"

definition js :: "string \<Rightarrow> jsstring" where
  "js s = map (\<lambda>c. of_nat (of_char c)) s"

text \<open>
  \<open>s.split(sep)\<close> for a separator of one code unit: the pieces between the
  occurrences of the separator, empty pieces included; the empty string gives one empty
  piece.
\<close>

fun split_on :: "'a \<Rightarrow> 'a list \<Rightarrow> 'a list list" where
  "split_on sep [] = [[]]"
| "split_on sep (c # cs) =
     (if c = sep then [] # split_on sep cs
      else (case split_on sep cs of [] \<Rightarrow> [[c]] | w # ws \<Rightarrow> (c # w) # ws))"

text \<open>
  White space and line terminators of ECMAScript: what \<open>trim\<close> strips and the regular
  expression class \<open>\s\<close> matches.
\<close>

definition is_ws :: "16 word \<Rightarrow> bool" where
  "is_ws c = (c = 0x9 \<or> c = 0xA \<or> c = 0xB \<or> c = 0xC \<or> c = 0xD \<or> c = 0x20
     \<or> c = 0xA0 \<or> c = 0x1680 \<or> (0x2000 \<le> c \<and> c \<le> 0x200A)
     \<or> c = 0x2028 \<or> c = 0x2029 \<or> c = 0x202F \<or> c = 0x205F \<or> c = 0x3000
     \<or> c = 0xFEFF)"

definition js_trim :: "jsstring \<Rightarrow> jsstring" where
  "js_trim s = rev (dropWhile is_ws (rev (dropWhile is_ws s)))"

text \<open>\<open>s.replace(/\s+/g, ' ')\<close>: every maximal run of white space becomes one space.\<close>

function collapse_ws :: "jsstring \<Rightarrow> jsstring" where
  "collapse_ws [] = []"
| "collapse_ws (c # cs) =
     (if is_ws c then 0x20 # collapse_ws (dropWhile is_ws cs) else c # collapse_ws cs)"
  by pat_completeness auto
termination
  by (relation "measure length") (auto simp: length_dropWhile_le less_Suc_eq_le)

text \<open>\<open>String(n)\<close> for a natural number: its decimal digits.\<close>

fun decimal :: "nat \<Rightarrow> jsstring" where
  "decimal n = (if n < 10 then [of_nat (48 + n)]
                else decimal (n div 10) @ [of_nat (48 + n mod 10)])"

text \<open>
  A thrown value: an \<open>Error\<close> object (also a \<open>DOMException\<close>) with its name and
  message, or a value that is not an \<open>Error\<close>.
\<close>

datatype thrown = JsError (err_name: jsstring) (err_message: jsstring) | NonError

section \<open>Event types (lib/chatEvents)\<close>

datatype ThoughtStepStatus = Pending | Active | Done | Error

datatype ThoughtStepId = Understand | Plan | Retrieve | Tool | Compose | Finalize

record ThoughtStep =
  step_id :: ThoughtStepId
  step_label :: jsstring
  status :: ThoughtStepStatus
  startedAt :: "int option"
  endedAt :: "int option"
  toolName :: "jsstring option"
  step_note :: "jsstring option"

record ChatThinkingState =
  visible :: bool
  canCancel :: bool
  steps :: "ThoughtStep list"
  activeStep :: "ThoughtStepId option"

record StreamChunk =
  chunk_id :: jsstring
  delta :: jsstring
  chunk_done :: "bool option"
  chunk_error :: "jsstring option"

record StreamingState =
  isStreaming :: bool
  messageId :: "jsstring option"
  content :: jsstring
  stream_error :: "jsstring option"
  stream_done :: bool

definition mk_step :: "ThoughtStepId \<Rightarrow> string \<Rightarrow> ThoughtStep" where
  "mk_step i l = \<lparr> step_id = i, step_label = js l, status = Pending,
     startedAt = None, endedAt = None, toolName = None, step_note = None \<rparr>"

definition DEFAULT_THINKING_STEPS :: "ThoughtStep list" where
  "DEFAULT_THINKING_STEPS =
     [ mk_step Understand ''Understanding request'',
       mk_step Plan ''Planning response'',
       mk_step Retrieve ''Searching knowledge'',
       mk_step Compose ''Composing answer'',
       mk_step Finalize ''Finalizing'' ]"

section \<open>The chat reducer (providers/ChatProvider)\<close>

datatype ChatAction =
    SET_THINKING_VISIBLE bool
  | SET_CAN_CANCEL bool
  | START_STEP ThoughtStepId "jsstring option" "jsstring option"
  | COMPLETE_STEP ThoughtStepId
  | FAIL_STEP ThoughtStepId "jsstring option"
  | RESET_THINKING
  | START_STREAMING jsstring
  | APPEND_CHUNK StreamChunk
  | FINISH_STREAMING
  | ERROR_STREAMING jsstring
  | RESET_STREAMING

record ChatState =
  thinking :: ChatThinkingState
  streaming :: StreamingState

definition initialThinking :: ChatThinkingState where
  "initialThinking = \<lparr> visible = False, canCancel = False,
     steps = DEFAULT_THINKING_STEPS, activeStep = None \<rparr>"

definition initialStreaming :: StreamingState where
  "initialStreaming = \<lparr> isStreaming = False, messageId = None, content = [],
     stream_error = None, stream_done = False \<rparr>"

definition initialState :: ChatState where
  "initialState = \<lparr> thinking = initialThinking, streaming = initialStreaming \<rparr>"

text \<open>\<open>label || step.label\<close>: an absent or empty label keeps the step's own.\<close>

definition label_or :: "jsstring option \<Rightarrow> jsstring \<Rightarrow> jsstring" where
  "label_or l old = (case l of None \<Rightarrow> old | Some x \<Rightarrow> if x = [] then old else x)"

definition start_step :: "int \<Rightarrow> ThoughtStepId \<Rightarrow> jsstring option \<Rightarrow> jsstring option
    \<Rightarrow> ThoughtStep \<Rightarrow> ThoughtStep" where
  "start_step now i l tn step =
     (if step_id step = i
      then step\<lparr> status := Active, startedAt := Some now,
                 step_label := label_or l (step_label step), toolName := tn \<rparr>
      else step)"

definition complete_step :: "int \<Rightarrow> ThoughtStepId \<Rightarrow> ThoughtStep \<Rightarrow> ThoughtStep" where
  "complete_step now i step =
     (if step_id step = i then step\<lparr> status := Done, endedAt := Some now \<rparr> else step)"

definition fail_step :: "int \<Rightarrow> ThoughtStepId \<Rightarrow> jsstring option \<Rightarrow> ThoughtStep \<Rightarrow> ThoughtStep" where
  "fail_step now i n step =
     (if step_id step = i
      then step\<lparr> status := Error, endedAt := Some now, step_note := n \<rparr>
      else step)"

text \<open>
  \<open>chatReducer now state action\<close>: \<open>now\<close> is the value \<open>Date.now()\<close> returns while
  the action is reduced. \<open>done: action.payload.done || false\<close> reads an absent flag as false.
\<close>

fun chatReducer :: "int \<Rightarrow> ChatState \<Rightarrow> ChatAction \<Rightarrow> ChatState" where
  "chatReducer now state (SET_THINKING_VISIBLE b) =
     state\<lparr> thinking := (thinking state)\<lparr> visible := b \<rparr> \<rparr>"
| "chatReducer now state (SET_CAN_CANCEL b) =
     state\<lparr> thinking := (thinking state)\<lparr> canCancel := b \<rparr> \<rparr>"
| "chatReducer now state (START_STEP i l tn) =
     state\<lparr> thinking := (thinking state)\<lparr> activeStep := Some i,
        steps := map (start_step now i l tn) (steps (thinking state)) \<rparr> \<rparr>"
| "chatReducer now state (COMPLETE_STEP i) =
     state\<lparr> thinking := (thinking state)\<lparr>
        steps := map (complete_step now i) (steps (thinking state)) \<rparr> \<rparr>"
| "chatReducer now state (FAIL_STEP i n) =
     state\<lparr> thinking := (thinking state)\<lparr>
        steps := map (fail_step now i n) (steps (thinking state)) \<rparr> \<rparr>"
| "chatReducer now state RESET_THINKING =
     state\<lparr> thinking := initialThinking\<lparr> steps := DEFAULT_THINKING_STEPS \<rparr> \<rparr>"
| "chatReducer now state (START_STREAMING mid) =
     state\<lparr> streaming := \<lparr> isStreaming = True, messageId = Some mid, content = [],
        stream_error = None, stream_done = False \<rparr> \<rparr>"
| "chatReducer now state (APPEND_CHUNK c) =
     state\<lparr> streaming := (streaming state)\<lparr>
        content := content (streaming state) @ delta c,
        stream_done := (case chunk_done c of Some b \<Rightarrow> b | None \<Rightarrow> False),
        stream_error := chunk_error c \<rparr> \<rparr>"
| "chatReducer now state FINISH_STREAMING =
     state\<lparr> streaming := (streaming state)\<lparr> isStreaming := False, stream_done := True \<rparr> \<rparr>"
| "chatReducer now state (ERROR_STREAMING e) =
     state\<lparr> streaming := (streaming state)\<lparr> isStreaming := False,
        stream_error := Some e, stream_done := True \<rparr> \<rparr>"
| "chatReducer now state RESET_STREAMING =
     state\<lparr> streaming := initialStreaming \<rparr>"

text \<open>
  Dispatched actions are reduced one after the other, in call order; each comes with the
  clock reading of its reduction.
\<close>

fun dispatch :: "ChatState \<Rightarrow> (int \<times> ChatAction) list \<Rightarrow> ChatState" where
  "dispatch state [] = state"
| "dispatch state ((now, a) # as) = dispatch (chatReducer now state a) as"

section \<open>Stream hooks (hooks/useStreamSSE)\<close>

record StreamState =
  sse_isStreaming :: bool
  sse_error :: "jsstring option"
  sse_chunks :: "StreamChunk list"
  sse_content :: jsstring

text \<open>The calls a hook makes to the callbacks of its options, in call order.\<close>

datatype StreamEvent = OnChunk StreamChunk | OnError jsstring | OnComplete

definition idleStream :: StreamState where
  "idleStream = \<lparr> sse_isStreaming = False, sse_error = None, sse_chunks = [],
     sse_content = [] \<rparr>"

definition startedStream :: StreamState where
  "startedStream = \<lparr> sse_isStreaming = True, sse_error = None, sse_chunks = [],
     sse_content = [] \<rparr>"

subsection \<open>useSimulatedStream\<close>

text \<open>
  \<open>sim_timer\<close> is the delay of the timer that is scheduled and has not fired yet, if
  there is one. Every firing of the timer runs \<open>sendNextChunk\<close> once.
\<close>

record Simulation =
  sim_state :: StreamState
  sim_events :: "StreamEvent list"
  currentIndex :: nat
  sim_timer :: "nat option"






definition cancelSimulation :: "Simulation \<Rightarrow> Simulation" where
  "cancelSimulation sim =
     sim\<lparr> sim_timer := None, sim_state := (sim_state sim)\<lparr> sse_isStreaming := False \<rparr> \<rparr>"

subsection \<open>useStreamSSE\<close>

text \<open>
  \<open>hook_controller\<close>: \<open>abortControllerRef.current\<close> is set. \<open>hook_pending\<close>:
  \<open>startStream\<close> is suspended at an \<open>await\<close> (the fetch or a read) that has not
  settled.
\<close>

record SSEHook =
  hook_state :: StreamState
  hook_events :: "StreamEvent list"
  hook_controller :: bool
  hook_pending :: bool

definition idleHook :: SSEHook where
  "idleHook = \<lparr> hook_state = idleStream, hook_events = [], hook_controller = False,
     hook_pending = False \<rparr>"

text \<open>
  What the network does to one call of \<open>startStream\<close>: how the fetch settles (the
  response's \<open>ok\<close>, its \<open>status\<close>, and whether its body has a reader), then how the
  reads settle, one after the other. A read's value is given already decoded. Where the
  script ends, the next \<open>await\<close> has not settled. The callbacks of the options
  are taken to return normally. One call is modelled at a time: when \<open>startStream\<close>
  is called while an earlier call is in flight, the code aborts that call, whose
  \<open>catch\<close> then clears \<open>isStreaming\<close> after the new start; this late update is
  outside the model.
\<close>

datatype fetch_result = FetchThrows thrown | Response bool nat bool

datatype read_result = ReadValue jsstring | ReadDone | ReadThrows thrown

text \<open>The outer \<open>catch\<close> of \<open>startStream\<close>.\<close>

fun catch_error :: "thrown \<Rightarrow> SSEHook \<Rightarrow> SSEHook" where
  "catch_error (JsError name msg) h =
     (if name = js ''AbortError''
      then h\<lparr> hook_state := (hook_state h)\<lparr> sse_isStreaming := False \<rparr>,
              hook_pending := False \<rparr>
      else
        let errorMessage = (if msg = [] then js ''Stream failed'' else msg)
        in h\<lparr> hook_state := (hook_state h)\<lparr> sse_isStreaming := False,
                    sse_error := Some errorMessage \<rparr>,
                hook_events := hook_events h @ [OnError errorMessage],
                hook_pending := False \<rparr>)"
| "catch_error NonError h =
     h\<lparr> hook_state := (hook_state h)\<lparr> sse_isStreaming := False,
            sse_error := Some (js ''Unknown stream error'') \<rparr>,
        hook_events := hook_events h @ [OnError (js ''Unknown stream error'')],
        hook_pending := False \<rparr>"

definition complete :: "SSEHook \<Rightarrow> SSEHook" where
  "complete h =
     h\<lparr> hook_state := (hook_state h)\<lparr> sse_isStreaming := False \<rparr>,
        hook_events := hook_events h @ [OnComplete],
        hook_pending := False \<rparr>"

definition add_chunk :: "StreamChunk \<Rightarrow> SSEHook \<Rightarrow> SSEHook" where
  "add_chunk c h =
     h\<lparr> hook_state := (hook_state h)\<lparr> sse_chunks := sse_chunks (hook_state h) @ [c],
            sse_content := sse_content (hook_state h) @ delta c \<rparr>,
        hook_events := hook_events h @ [OnChunk c] \<rparr>"

text \<open>
  The loop over the complete lines of the buffer. \<open>parse\<close> is \<open>JSON.parse\<close> read as
  a chunk; on \<open>None\<close> it throws, the line is logged and skipped. The result says whether
  \<open>startStream\<close> has returned (\<open>[DONE]\<close> or a chunk with \<open>done\<close>).
\<close>

fun process_lines :: "(jsstring \<Rightarrow> StreamChunk option) \<Rightarrow> jsstring list \<Rightarrow> SSEHook
    \<Rightarrow> SSEHook \<times> bool" where
  "process_lines parse [] h = (h, False)"
| "process_lines parse (line # rest) h =
     (if js_trim line = [] then process_lines parse rest h
      else if take 6 line = js ''data: '' \<and> drop 6 line = js ''[DONE]''
      then (complete h, True)
      else
        (case parse (if take 6 line = js ''data: '' then drop 6 line else line) of
           None \<Rightarrow> process_lines parse rest h
         | Some c \<Rightarrow>
             if chunk_done c = Some True then (complete (add_chunk c h), True)
             else process_lines parse rest (add_chunk c h)))"

fun read_loop :: "(jsstring \<Rightarrow> StreamChunk option) \<Rightarrow> read_result list \<Rightarrow> jsstring
    \<Rightarrow> SSEHook \<Rightarrow> SSEHook" where
  "read_loop parse [] buffer h = h\<lparr> hook_pending := True \<rparr>"
| "read_loop parse (ReadThrows e # rs) buffer h = catch_error e h"
| "read_loop parse (ReadDone # rs) buffer h = complete h"
| "read_loop parse (ReadValue v # rs) buffer h =
     (let lines = split_on 0xA (buffer @ v);
          r = process_lines parse (butlast lines) h
      in if snd r then fst r else read_loop parse rs (last lines) (fst r))"

definition startStream :: "(jsstring \<Rightarrow> StreamChunk option) \<Rightarrow> fetch_result option
    \<Rightarrow> read_result list \<Rightarrow> SSEHook \<Rightarrow> SSEHook" where
  "startStream parse fetched reads h =
     (let h0 = h\<lparr> hook_controller := True, hook_state := startedStream,
                   hook_pending := False \<rparr>
      in case fetched of
           None \<Rightarrow> h0\<lparr> hook_pending := True \<rparr>
         | Some (FetchThrows e) \<Rightarrow> catch_error e h0
         | Some (Response ok code body) \<Rightarrow>
             if \<not> ok
             then catch_error (JsError (js ''Error'')
                    (js ''HTTP error! status: '' @ decimal code)) h0
             else if \<not> body
             then catch_error (JsError (js ''Error'') (js ''Response body is not readable'')) h0
             else read_loop parse reads [] h0)"

text \<open>
  \<open>cancelStream\<close> aborts the controller and clears \<open>isStreaming\<close>. The abort makes the
  \<open>await\<close> at which \<open>startStream\<close> is suspended throw an \<open>AbortError\<close>, which its
  \<open>catch\<close> handles afterwards.
\<close>

definition abortError :: thrown where
  "abortError = JsError (js ''AbortError'') (js ''The user aborted a request.'')"

definition cancelStream :: "SSEHook \<Rightarrow> SSEHook" where
  "cancelStream h =
     (if hook_controller h
      then (let h1 = h\<lparr> hook_state := (hook_state h)\<lparr> sse_isStreaming := False \<rparr> \<rparr>
            in if hook_pending h1 then catch_error abortError h1 else h1)
      else h)"

section \<open>Rate-limited typing (hooks/useTypingAnimation, useIncrementalTyping)\<close>

text \<open>
  Times are milliseconds. \<open>1000 / speed\<close> is \<open>Infinity\<close> for speed 0; the quotient is
  taken exactly, where the code rounds it to a double. \<open>timers\<close> are the scheduled timers that have not fired, each with its
  handle and delay.
\<close>

datatype jsnum = Finite rat | Infinity

record IncrementalTyping =
  displayedText :: jsstring
  isTyping :: bool
  bufferRef :: jsstring
  timeoutRef :: "nat option"
  lastUpdateRef :: int
  timers :: "(nat \<times> jsnum) list"
  next_handle :: nat

definition initialTyping :: IncrementalTyping where
  "initialTyping = \<lparr> displayedText = [], isTyping = False, bufferRef = [],
     timeoutRef = None, lastUpdateRef = 0, timers = [], next_handle = 1 \<rparr>"

definition clearTimeout :: "nat \<Rightarrow> IncrementalTyping \<Rightarrow> IncrementalTyping" where
  "clearTimeout h st = st\<lparr> timers := filter (\<lambda>t. fst t \<noteq> h) (timers st) \<rparr>"

definition setTimeout :: "jsnum \<Rightarrow> IncrementalTyping \<Rightarrow> IncrementalTyping" where
  "setTimeout d st = st\<lparr> timers := timers st @ [(next_handle st, d)],
     timeoutRef := Some (next_handle st), next_handle := Suc (next_handle st) \<rparr>"

definition minInterval :: "rat \<Rightarrow> jsnum" where
  "minInterval speed = (if speed = 0 then Infinity else Finite (1000 / speed))"

definition appendText :: "rat \<Rightarrow> bool \<Rightarrow> bool \<Rightarrow> int \<Rightarrow> jsstring \<Rightarrow> IncrementalTyping
    \<Rightarrow> IncrementalTyping" where
  "appendText speed enabled prefersReducedMotion now newText st =
     (let st1 = st\<lparr> bufferRef := bufferRef st @ newText \<rparr>
      in if \<not> enabled \<or> prefersReducedMotion
         then st1\<lparr> displayedText := bufferRef st1 \<rparr>
         else
           (case minInterval speed of
              Finite m \<Rightarrow>
                if of_int (now - lastUpdateRef st1) \<ge> m
                then st1\<lparr> displayedText := bufferRef st1, lastUpdateRef := now \<rparr>
                else
                  (let st2 = (case timeoutRef st1 of None \<Rightarrow> st1
                                | Some h \<Rightarrow> clearTimeout h st1)
                   in setTimeout (Finite (m - of_int (now - lastUpdateRef st1)))
                        (st2\<lparr> isTyping := True \<rparr>))
            | Infinity \<Rightarrow>
                (let st2 = (case timeoutRef st1 of None \<Rightarrow> st1
                              | Some h \<Rightarrow> clearTimeout h st1)
                 in setTimeout Infinity (st2\<lparr> isTyping := True \<rparr>))))"

text \<open>The callback of the timer that \<open>appendText\<close> schedules, when timer \<open>h\<close> fires.\<close>

definition timer_fires :: "nat \<Rightarrow> int \<Rightarrow> IncrementalTyping \<Rightarrow> IncrementalTyping" where
  "timer_fires h now st =
     (if h \<in> fst ` set (timers st)
      then (clearTimeout h st)\<lparr> displayedText := bufferRef st, isTyping := False,
              lastUpdateRef := now \<rparr>
      else st)"

definition flush :: "IncrementalTyping \<Rightarrow> IncrementalTyping" where
  "flush st =
     (let st1 = (case timeoutRef st of None \<Rightarrow> st
                   | Some h \<Rightarrow> (clearTimeout h st)\<lparr> timeoutRef := None \<rparr>)
      in st1\<lparr> displayedText := bufferRef st1, isTyping := False \<rparr>)"

text \<open>Calls of \<open>appendText\<close>, each with the clock reading at the call.\<close>

fun append_all :: "rat \<Rightarrow> bool \<Rightarrow> bool \<Rightarrow> (int \<times> jsstring) list \<Rightarrow> IncrementalTyping
    \<Rightarrow> IncrementalTyping" where
  "append_all speed enabled reduced [] st = st"
| "append_all speed enabled reduced ((now, t) # ts) st =
     append_all speed enabled reduced ts (appendText speed enabled reduced now t st)"

definition reset_typing :: "IncrementalTyping \<Rightarrow> IncrementalTyping" where
  "reset_typing st =
     (let st1 = (case timeoutRef st of None \<Rightarrow> st
                   | Some h \<Rightarrow> (clearTimeout h st)\<lparr> timeoutRef := None \<rparr>)
      in st1\<lparr> bufferRef := [], displayedText := [], isTyping := False, lastUpdateRef := 0 \<rparr>)"

section \<open>Chat sessions (ChatService)\<close>

datatype MessageType = User | Assistant

record Message =
  msg_id :: jsstring
  msg_type :: MessageType
  msg_content :: jsstring
  msg_timestamp :: int

record ChatSession =
  session_id :: jsstring
  title :: jsstring
  lastMessage :: jsstring
  session_timestamp :: int
  messageCount :: nat
  messages :: "Message list"

definition type_name :: "MessageType \<Rightarrow> jsstring" where
  "type_name t = (case t of User \<Rightarrow> js ''user'' | Assistant \<Rightarrow> js ''assistant'')"

definition generateChatTitle :: "Message list \<Rightarrow> jsstring" where
  "generateChatTitle msgs =
     (case find (\<lambda>msg. msg_type msg = User) msgs of
        None \<Rightarrow> js ''New Chat''
      | Some firstUserMessage \<Rightarrow>
          (let t1 = js_trim (take 50 (msg_content firstUserMessage));
               t2 = (if length (msg_content firstUserMessage) > 50 then t1 @ js ''...'' else t1);
               t3 = collapse_ws t2
           in if t3 = [] then js ''New Chat'' else t3))"

text \<open>
  \<open>btoa\<close> of the platform: a string with a code unit above 255 makes it throw an
  \<open>InvalidCharacterError\<close>; otherwise the code units are bytes, encoded in base 64
  with padding.
\<close>

definition b64_char :: "nat \<Rightarrow> 16 word" where
  "b64_char n = (if n < 26 then of_nat (65 + n)
                 else if n < 52 then of_nat (97 + (n - 26))
                 else if n < 62 then of_nat (48 + (n - 52))
                 else if n = 62 then 0x2B else 0x2F)"

fun b64_encode :: "nat list \<Rightarrow> jsstring" where
  "b64_encode [] = []"
| "b64_encode [a] = [b64_char (a div 4), b64_char ((a mod 4) * 16), 0x3D, 0x3D]"
| "b64_encode [a, b] =
     [b64_char (a div 4), b64_char ((a mod 4) * 16 + b div 16),
      b64_char ((b mod 16) * 4), 0x3D]"
| "b64_encode (a # b # c # rest) =
     [b64_char (a div 4), b64_char ((a mod 4) * 16 + b div 16),
      b64_char ((b mod 16) * 4 + c div 64), b64_char (c mod 64)] @ b64_encode rest"

definition btoa :: "jsstring \<Rightarrow> thrown + jsstring" where
  "btoa s =
     (if list_all (\<lambda>c. c \<le> 0xFF) s then Inr (b64_encode (map unat s))
      else Inl (JsError (js ''InvalidCharacterError'') (js ''Invalid character'')))"

text \<open>\<open>pieces.join(sep)\<close>.\<close>

fun join :: "jsstring \<Rightarrow> jsstring list \<Rightarrow> jsstring" where
  "join sep [] = []"
| "join sep [x] = x"
| "join sep (x # y # ys) = x @ sep @ join sep (y # ys)"

definition serialize :: "Message list \<Rightarrow> jsstring" where
  "serialize msgs = join (js ''|'') (map (\<lambda>msg. type_name (msg_type msg) @ js '':'' @ msg_content msg) msgs)"

definition generateContentHash :: "Message list \<Rightarrow> thrown + jsstring" where
  "generateContentHash msgs =
     (case btoa (serialize msgs) of Inl e \<Rightarrow> Inl e | Inr b \<Rightarrow> Inr (take 16 b))"

text \<open>
  \<open>sessions.find(session => generateContentHash(session.messages) === contentHash)\<close>,
  as the index of the session found. The hashes are computed session by session up to the
  first match, and a hash that throws ends the search.
\<close>

fun find_session :: "jsstring \<Rightarrow> ChatSession list \<Rightarrow> thrown + nat option" where
  "find_session h [] = Inr None"
| "find_session h (s # ss) =
     (case generateContentHash (messages s) of
        Inl e \<Rightarrow> Inl e
      | Inr h' \<Rightarrow>
          if h' = h then Inr (Some 0)
          else (case find_session h ss of
                  Inl e \<Rightarrow> Inl e
                | Inr None \<Rightarrow> Inr None
                | Inr (Some i) \<Rightarrow> Inr (Some (Suc i))))"

definition preview :: "jsstring \<Rightarrow> jsstring" where
  "preview c = take 100 c @ (if length c > 100 then js ''...'' else [])"

text \<open>
  \<open>saveChatSession now new_id stored msgs\<close>: \<open>stored\<close> is the list of sessions that
  \<open>getChatSessions\<close> reads from local storage, \<open>now\<close> the clock reading and
  \<open>new_id\<close> the identifier drawn with \<open>Math.random\<close>. The result is the thrown
  value, or the session returned together with the list written back to local storage.
  A call that throws writes nothing. The JSON text in local storage keeps the id, the
  title and every message's type and content of each session, so the list read by the
  next call is the list written by this one.
\<close>

definition saveChatSession :: "int \<Rightarrow> jsstring \<Rightarrow> ChatSession list \<Rightarrow> Message list
    \<Rightarrow> thrown + (ChatSession \<times> ChatSession list)" where
  "saveChatSession now new_id stored msgs =
     (if msgs = [] then Inl (JsError (js ''Error'') (js ''Cannot save empty chat session''))
      else
        (case generateContentHash msgs of
           Inl e \<Rightarrow> Inl e
         | Inr contentHash \<Rightarrow>
             (case find_session contentHash stored of
                Inl e \<Rightarrow> Inl e
              | Inr (Some i) \<Rightarrow>
                  (let existingSession = (stored ! i)\<lparr>
                         session_timestamp := now,
                         messageCount := length msgs,
                         messages := msgs,
                         lastMessage := preview (msg_content (last msgs)) \<rparr>
                   in Inr (existingSession, stored[i := existingSession]))
              | Inr None \<Rightarrow>
                  (let session = \<lparr> session_id = new_id,
                         title = generateChatTitle msgs,
                         lastMessage = preview (msg_content (last msgs)),
                         session_timestamp = now,
                         messageCount = length msgs,
                         messages = msgs \<rparr>
                   in Inr (session, session # stored)))))"

text \<open>The stored list after a call: the list written back, or the old one on a throw.\<close>

definition stored_after :: "ChatSession list \<Rightarrow> thrown + (ChatSession \<times> ChatSession list)
    \<Rightarrow> ChatSession list" where
  "stored_after stored r = (case r of Inl e \<Rightarrow> stored | Inr p \<Rightarrow> snd p)"

definition deleteChatSession :: "jsstring \<Rightarrow> ChatSession list \<Rightarrow> ChatSession list" where
  "deleteChatSession sid stored = filter (\<lambda>s. session_id s \<noteq> sid) stored"

section \<open>Properties and sample states\<close>

text \<open>
  The property that the step which \<open>activeStep\<close> names is active, and the weaker
  property that this step has left \<open>pending\<close>.
\<close>

definition started_for :: "ThoughtStepId \<Rightarrow> ThoughtStep list \<Rightarrow> bool" where
  "started_for i xs =
     list_all (\<lambda>st. status st \<noteq> Pending) (filter (\<lambda>st. step_id st = i) xs)"

definition active_step_is_active :: "ChatThinkingState \<Rightarrow> bool" where
  "active_step_is_active th =
     (case activeStep th of None \<Rightarrow> True
      | Some i \<Rightarrow> map status (filter (\<lambda>st. step_id st = i) (steps th)) = [Active])"

definition active_step_started :: "ChatThinkingState \<Rightarrow> bool" where
  "active_step_started th =
     (case activeStep th of None \<Rightarrow> True | Some i \<Rightarrow> started_for i (steps th))"

text \<open>The state after \<open>startStep('understand')\<close> and \<open>completeStep('understand')\<close>.\<close>

definition completed_state :: ChatState where
  "completed_state = dispatch initialState
     [(10, START_STEP Understand None None), (20, COMPLETE_STEP Understand)]"

text \<open>A state with \<open>done = true\<close>, and a chunk that arrives after it.\<close>

definition done_state :: ChatState where
  "done_state = dispatch initialState
     [(0, START_STREAMING (js ''m1'')),
      (1, APPEND_CHUNK \<lparr> chunk_id = js ''m1'', delta = js ''a'',
             chunk_done = Some True, chunk_error = None \<rparr>)]"

definition late_chunk :: StreamChunk where
  "late_chunk = \<lparr> chunk_id = js ''m1'', delta = js ''b'',
     chunk_done = None, chunk_error = None \<rparr>"




text \<open>A chat whose first user message has 80 code units.\<close>

definition long_message :: Message where
  "long_message = \<lparr> msg_id = js ''2'', msg_type = User, msg_content = replicate 80 0x61,
     msg_timestamp = 2 \<rparr>"

definition sample_chat :: "Message list" where
  "sample_chat = [ \<lparr> msg_id = js ''1'', msg_type = Assistant, msg_content = js ''Hello'',
                      msg_timestamp = 1 \<rparr>, long_message ]"

text \<open>Two chats of one user message each, which differ in the last character.\<close>

definition chat_one :: "Message list" where
  "chat_one = [ \<lparr> msg_id = js ''a'', msg_type = User, msg_content = js ''hello world 1'',
                   msg_timestamp = 1 \<rparr> ]"

definition chat_two :: "Message list" where
  "chat_two = [ \<lparr> msg_id = js ''b'', msg_type = User, msg_content = js ''hello world 2'',
                   msg_timestamp = 2 \<rparr> ]"

text \<open>
  The update in place of \<open>saveChatSession\<close>: the stored session with a new timestamp,
  message count, messages and preview; its id and title stay.
\<close>

definition resave :: "int \<Rightarrow> Message list \<Rightarrow> ChatSession \<Rightarrow> ChatSession" where
  "resave now msgs s = s\<lparr> session_timestamp := now, messageCount := length msgs,
     messages := msgs, lastMessage := preview (msg_content (last msgs)) \<rparr>"

definition first_session :: ChatSession where
  "first_session = \<lparr> session_id = js ''k3j9x2m1q'', title = js ''hello world 1'',
     lastMessage = js ''hello world 1'', session_timestamp = 100, messageCount = 1,
     messages = chat_one \<rparr>"

text \<open>
  The message that the \<open>catch\<close> of \<open>startStream\<close> reports for a thrown value, and
  whether a hook has signalled the end of a stream: a recorded chunk with \<open>done = true\<close>,
  or a call of \<open>onComplete\<close>.
\<close>

definition failure_message :: "thrown \<Rightarrow> jsstring" where
  "failure_message e =
     (case e of JsError name msg \<Rightarrow> (if msg = [] then js ''Stream failed'' else msg)
      | NonError \<Rightarrow> js ''Unknown stream error'')"

definition is_abort :: "thrown \<Rightarrow> bool" where
  "is_abort e = (case e of JsError name msg \<Rightarrow> name = js ''AbortError'' | NonError \<Rightarrow> False)"

definition signals_done :: "SSEHook \<Rightarrow> bool" where
  "signals_done h =
     (list_ex (\<lambda>c. chunk_done c = Some True) (sse_chunks (hook_state h))
      \<or> list_ex (\<lambda>ev. ev = OnComplete) (hook_events h))"

text \<open>
  A parser that accepts the one line \<open>{"id":"m1","delta":"Hi"}\<close>; a stream that
  delivers this line and then fails with a network error; and a request that is still
  waiting for its next read.
\<close>

definition sample_parse :: "jsstring \<Rightarrow> StreamChunk option" where
  "sample_parse s =
     (if s = js ''{\"id\":\"m1\",\"delta\":\"Hi\"}''
      then Some \<lparr> chunk_id = js ''m1'', delta = js ''Hi'', chunk_done = None,
                   chunk_error = None \<rparr>
      else None)"

definition network_error :: thrown where
  "network_error = JsError (js ''TypeError'') (js ''network error'')"

definition waiting_run :: SSEHook where
  "waiting_run = startStream sample_parse (Some (Response True 200 True))
     [ReadValue (js ''data: {\"id\":\"m1\",\"delta\":\"Hi\"}'' @ [0xA])] idleHook"

definition failed_run :: SSEHook where
  "failed_run = startStream sample_parse (Some (Response True 200 True))
     [ReadValue (js ''data: {\"id\":\"m1\",\"delta\":\"Hi\"}'' @ [0xA]),
      ReadThrows network_error] idleHook"

text \<open>The content of a stream hook is the concatenation of the deltas of its chunks.\<close>

definition content_ok :: "SSEHook \<Rightarrow> bool" where
  "content_ok h = (sse_content (hook_state h) = concat (map delta (sse_chunks (hook_state h))))"

text \<open>
  Content that \<open>btoa\<close> accepts: every code unit is at most 255. A store whose
  sessions all have such content is one that \<open>find_session\<close> can search without a
  throw. \<open>invalidCharacterError\<close> is what \<open>btoa\<close> throws otherwise.
\<close>

definition latin1 :: "jsstring \<Rightarrow> bool" where
  "latin1 s = list_all (\<lambda>c. c \<le> 0xFF) s"

definition hashable_store :: "ChatSession list \<Rightarrow> bool" where
  "hashable_store stored = list_all (\<lambda>s. latin1 (serialize (messages s))) stored"

definition invalidCharacterError :: thrown where
  "invalidCharacterError = JsError (js ''InvalidCharacterError'') (js ''Invalid character'')"

text \<open>A chat of one user message, \<open>hi\<close>, a space and an em dash (U+2014).\<close>

definition dash_chat :: "Message list" where
  "dash_chat = [ \<lparr> msg_id = js ''u1'', msg_type = User, msg_content = js ''hi '' @ [0x2014],
                    msg_timestamp = 1 \<rparr> ]"

section \<open>Streaming state: appended chunks\<close>

lemma dispatch_chunks_content:
  "map snd acts = map APPEND_CHUNK chunks \<Longrightarrow>
   content (streaming (dispatch s acts)) = content (streaming s) @ concat (map delta chunks)"
proof (induction chunks arbitrary: s acts)
  case Nil
  then show ?case by simp
next
  case (Cons c cs)
  then obtain t rest where acts: "acts = (t, APPEND_CHUNK c) # rest"
    and rest: "map snd rest = map APPEND_CHUNK cs"
    by (cases acts) auto
  from Cons.IH [OF rest, of "chatReducer t s (APPEND_CHUNK c)"]
  show ?case by (simp add: acts)
qed

lemma dispatch_chunks_done:
  "map snd acts = map APPEND_CHUNK chunks \<Longrightarrow> chunks \<noteq> [] \<Longrightarrow>
   stream_done (streaming (dispatch s acts)) =
     (case chunk_done (last chunks) of Some b \<Rightarrow> b | None \<Rightarrow> False)"
proof (induction chunks arbitrary: s acts)
  case Nil
  then show ?case by simp
next
  case (Cons c cs)
  then obtain t rest where acts: "acts = (t, APPEND_CHUNK c) # rest"
    and rest: "map snd rest = map APPEND_CHUNK cs"
    by (cases acts) auto
  show ?case
  proof (cases "cs = []")
    case True
    with rest have "rest = []" by simp
    with True show ?thesis by (simp add: acts)
  next
    case False
    from Cons.IH [OF rest False, of "chatReducer t s (APPEND_CHUNK c)"] False
    show ?thesis by (simp add: acts)
  qed
qed

lemma dispatch_chunks_messageId:
  "map snd acts = map APPEND_CHUNK chunks \<Longrightarrow>
   messageId (streaming (dispatch s acts)) = messageId (streaming s)
   \<and> isStreaming (streaming (dispatch s acts)) = isStreaming (streaming s)"
proof (induction chunks arbitrary: s acts)
  case Nil
  then show ?case by simp
next
  case (Cons c cs)
  then obtain t rest where acts: "acts = (t, APPEND_CHUNK c) # rest"
    and rest: "map snd rest = map APPEND_CHUNK cs"
    by (cases acts) auto
  from Cons.IH [OF rest, of "chatReducer t s (APPEND_CHUNK c)"]
  show ?case by (simp add: acts)
qed

text \<open>
  C1. A sequence of chunks that share one message id, of which exactly the last carries
  \<open>done = true\<close>, is dispatched after \<open>startStreaming(messageId)\<close> as one
  \<open>appendChunk\<close> each, in emission order. Then the streaming state's content is the
  concatenation of the chunks' deltas, and \<open>done\<close> is true. (The state still records the
  message id.)
\<close>

theorem C1_streamed_content_is_concatenation:
  assumes "chunks \<noteq> []"
    and "\<forall>c \<in> set chunks. chunk_id c = mid"
    and "chunk_done (last chunks) = Some True"
    and "\<forall>c \<in> set (butlast chunks). chunk_done c \<noteq> Some True"
    and "map snd acts = map APPEND_CHUNK chunks"
  shows "content (streaming (dispatch s ((t0, START_STREAMING mid) # acts)))
           = concat (map delta chunks)
       \<and> stream_done (streaming (dispatch s ((t0, START_STREAMING mid) # acts)))
       \<and> messageId (streaming (dispatch s ((t0, START_STREAMING mid) # acts))) = Some mid"
proof -
  let ?s1 = "chatReducer t0 s (START_STREAMING mid)"
  have c: "content (streaming (dispatch ?s1 acts)) = concat (map delta chunks)"
    using dispatch_chunks_content [OF assms(5), of ?s1] by simp
  have d: "stream_done (streaming (dispatch ?s1 acts))"
    using dispatch_chunks_done [OF assms(5) assms(1), of ?s1] assms(3) by simp
  have m: "messageId (streaming (dispatch ?s1 acts)) = Some mid"
    using dispatch_chunks_messageId [OF assms(5), of ?s1] by simp
  from c d m show ?thesis by simp
qed

theorem C1_streamed_content_witness:
  "content (streaming (dispatch initialState
     [(0, START_STREAMING (js ''m1'')),
      (1, APPEND_CHUNK \<lparr> chunk_id = js ''m1'', delta = js ''hello'',
             chunk_done = Some False, chunk_error = None \<rparr>),
      (2, APPEND_CHUNK \<lparr> chunk_id = js ''m1'', delta = js '' world'',
             chunk_done = None, chunk_error = None \<rparr>),
      (3, APPEND_CHUNK \<lparr> chunk_id = js ''m1'', delta = [],
             chunk_done = Some True, chunk_error = None \<rparr>)]))
   = js ''hello world''"
  using C1_streamed_content_is_concatenation
    [of "[\<lparr> chunk_id = js ''m1'', delta = js ''hello'',
             chunk_done = Some False, chunk_error = None \<rparr>,
          \<lparr> chunk_id = js ''m1'', delta = js '' world'',
             chunk_done = None, chunk_error = None \<rparr>,
          \<lparr> chunk_id = js ''m1'', delta = [],
             chunk_done = Some True, chunk_error = None \<rparr>]"
        "js ''m1''"
        "[(1, APPEND_CHUNK \<lparr> chunk_id = js ''m1'', delta = js ''hello'',
             chunk_done = Some False, chunk_error = None \<rparr>),
          (2, APPEND_CHUNK \<lparr> chunk_id = js ''m1'', delta = js '' world'',
             chunk_done = None, chunk_error = None \<rparr>),
          (3, APPEND_CHUNK \<lparr> chunk_id = js ''m1'', delta = [],
             chunk_done = Some True, chunk_error = None \<rparr>)]"
        initialState 0]
  by (simp add: js_def)

section \<open>Streaming state: chunks after \<open>done\<close>\<close>

text \<open>
  C3, as stated, fails. The state reached by \<open>startStreaming\<close> and one chunk with
  \<open>done = true\<close> has \<open>done = true\<close> and content \<open>a\<close>; a further \<open>appendChunk\<close>
  with delta \<open>b\<close> and no reset makes the content \<open>ab\<close> and \<open>done\<close> false again.
\<close>

theorem C3_counterexample:
  "stream_done (streaming done_state)
   \<and> content (streaming done_state) = js ''a''
   \<and> content (streaming (chatReducer 2 done_state (APPEND_CHUNK late_chunk))) = js ''ab''
   \<and> content (streaming (chatReducer 2 done_state (APPEND_CHUNK late_chunk)))
       \<noteq> content (streaming done_state)
   \<and> \<not> stream_done (streaming (chatReducer 2 done_state (APPEND_CHUNK late_chunk)))"
  by (simp add: done_state_def late_chunk_def initialState_def js_def)

text \<open>
  C3, amended. The reducer has no guard on \<open>done\<close>: in a state with \<open>done = true\<close>,
  \<open>appendChunk\<close> still appends the chunk's delta to the content, so the content is
  unchanged exactly when the delta is empty; \<open>done\<close> becomes the chunk's flag (false when
  absent) and the error the chunk's error. Treating \<open>done\<close> as terminal is left to the caller.
\<close>

theorem C3_append_chunk_ignores_done:
  assumes "stream_done (streaming s)"
  shows "content (streaming (chatReducer now s (APPEND_CHUNK c))) = content (streaming s) @ delta c
       \<and> (content (streaming (chatReducer now s (APPEND_CHUNK c))) = content (streaming s)
            \<longleftrightarrow> delta c = [])
       \<and> stream_done (streaming (chatReducer now s (APPEND_CHUNK c)))
            = (case chunk_done c of Some b \<Rightarrow> b | None \<Rightarrow> False)
       \<and> stream_error (streaming (chatReducer now s (APPEND_CHUNK c))) = chunk_error c"
  by simp

theorem C3_append_chunk_ignores_done_witness:
  "stream_done (streaming done_state)
   \<and> content (streaming (chatReducer 2 done_state (APPEND_CHUNK late_chunk)))
       = content (streaming done_state) @ js ''b''"
proof -
  have d: "stream_done (streaming done_state)"
    by (simp add: done_state_def initialState_def)
  from C3_append_chunk_ignores_done [OF d, of 2 late_chunk] d
  show ?thesis by (simp add: late_chunk_def)
qed

section \<open>Thinking timeline\<close>

text \<open>
  C10. From the initial thinking state, \<open>startStep('tool')\<close> sets \<open>activeStep\<close> to
  \<open>tool\<close> and leaves the step list as it was, every step still pending: the default list
  has the five ids understand, plan, retrieve, compose, finalize and no \<open>tool\<close> entry.
\<close>

theorem C10_start_tool_step_changes_no_step:
  "activeStep (thinking (chatReducer now initialState (START_STEP Tool l tn))) = Some Tool
   \<and> steps (thinking (chatReducer now initialState (START_STEP Tool l tn)))
       = steps (thinking initialState)
   \<and> map status (steps (thinking (chatReducer now initialState (START_STEP Tool l tn))))
       = [Pending, Pending, Pending, Pending, Pending]
   \<and> map step_id DEFAULT_THINKING_STEPS = [Understand, Plan, Retrieve, Compose, Finalize]"
  by (simp add: initialState_def initialThinking_def DEFAULT_THINKING_STEPS_def
      mk_step_def start_step_def)

lemma started_for_Nil: "started_for i []"
  by (simp add: started_for_def)

lemma started_for_Cons:
  "started_for i (x # xs) =
     ((if step_id x = i then status x \<noteq> Pending else True) \<and> started_for i xs)"
  by (simp add: started_for_def)

lemma started_for_start_same: "started_for i (map (start_step now i l tn) xs)"
  by (induction xs) (simp_all add: started_for_Nil started_for_Cons start_step_def)

lemma started_for_complete:
  "started_for j xs \<Longrightarrow> started_for j (map (complete_step now i) xs)"
  by (induction xs) (simp_all add: started_for_Nil started_for_Cons complete_step_def)

lemma started_for_fail:
  "started_for j xs \<Longrightarrow> started_for j (map (fail_step now i n) xs)"
  by (induction xs) (simp_all add: started_for_Nil started_for_Cons fail_step_def)

lemma chatReducer_keeps_started:
  assumes "active_step_started (thinking s)"
  shows "active_step_started (thinking (chatReducer now s a))"
proof (cases a)
  case (START_STEP i l tn)
  then show ?thesis
    by (simp add: active_step_started_def started_for_start_same)
next
  case (COMPLETE_STEP i)
  with assms show ?thesis
    by (cases "activeStep (thinking s)")
       (simp_all add: active_step_started_def started_for_complete)
next
  case (FAIL_STEP i n)
  with assms show ?thesis
    by (cases "activeStep (thinking s)")
       (simp_all add: active_step_started_def started_for_fail)
next
  case RESET_THINKING
  then show ?thesis
    by (simp add: active_step_started_def initialThinking_def)
qed (use assms in \<open>simp_all add: active_step_started_def split: option.splits\<close>)

lemma dispatch_keeps_started:
  "active_step_started (thinking s) \<Longrightarrow> active_step_started (thinking (dispatch s acts))"
proof (induction acts arbitrary: s)
  case Nil
  then show ?case by simp
next
  case (Cons x xs)
  obtain now a where x: "x = (now, a)" by (cases x)
  from Cons show ?case
    by (simp add: x chatReducer_keeps_started)
qed

lemma initial_started: "active_step_started (thinking initialState)"
  by (simp add: active_step_started_def initialState_def initialThinking_def)

lemma completed_state_thinking:
  "thinking completed_state = \<lparr> visible = False, canCancel = False,
     steps = [ (mk_step Understand ''Understanding request'')
                 \<lparr> status := Done, startedAt := Some 10, endedAt := Some 20 \<rparr>,
               mk_step Plan ''Planning response'',
               mk_step Retrieve ''Searching knowledge'',
               mk_step Compose ''Composing answer'',
               mk_step Finalize ''Finalizing'' ],
     activeStep = Some Understand \<rparr>"
  by (simp add: completed_state_def initialState_def initialThinking_def
      DEFAULT_THINKING_STEPS_def mk_step_def start_step_def complete_step_def label_or_def)

text \<open>
  C2, as stated, fails. After \<open>startStep('understand')\<close> and \<open>completeStep('understand')\<close>
  from the initial state, \<open>activeStep\<close> is still \<open>understand\<close> while that step is done.
\<close>

theorem C2_counterexample:
  "activeStep (thinking completed_state) = Some Understand
   \<and> map step_id (steps (thinking completed_state))
       = [Understand, Plan, Retrieve, Compose, Finalize]
   \<and> map status (steps (thinking completed_state))
       = [Done, Pending, Pending, Pending, Pending]
   \<and> \<not> active_step_is_active (thinking completed_state)"
  by (simp add: completed_state_thinking mk_step_def active_step_is_active_def)

lemma start_step_all_active:
  "list_all (\<lambda>st. status st = Active \<and> startedAt st = Some now)
     (filter (\<lambda>st. step_id st = i) (map (start_step now i l tn) xs))"
  by (induction xs) (simp_all add: start_step_def)

lemma complete_step_all_done:
  "list_all (\<lambda>st. status st = Done \<and> endedAt st = Some now)
     (filter (\<lambda>st. step_id st = i) (map (complete_step now i) xs))"
  by (induction xs) (simp_all add: complete_step_def)

text \<open>
  C2, amended. In every state reachable from the initial state, if \<open>activeStep\<close> is set
  then every step of the list with that id has left \<open>pending\<close> (it is active, done or
  failed). \<open>startStep(id)\<close> sets \<open>activeStep\<close> to the id and makes the steps with that id
  active; \<open>completeStep(id)\<close> makes them done, records \<open>endedAt\<close> and leaves
  \<open>activeStep\<close> as it was.
\<close>

theorem C2_active_step_has_started:
  "active_step_started (thinking (dispatch initialState acts))
   \<and> activeStep (thinking (chatReducer now (dispatch initialState acts) (START_STEP i l tn)))
       = Some i
   \<and> list_all (\<lambda>st. status st = Active \<and> startedAt st = Some now)
       (filter (\<lambda>st. step_id st = i)
         (steps (thinking (chatReducer now (dispatch initialState acts) (START_STEP i l tn)))))
   \<and> activeStep (thinking (chatReducer now (dispatch initialState acts) (COMPLETE_STEP i)))
       = activeStep (thinking (dispatch initialState acts))
   \<and> list_all (\<lambda>st. status st = Done \<and> endedAt st = Some now)
       (filter (\<lambda>st. step_id st = i)
         (steps (thinking (chatReducer now (dispatch initialState acts) (COMPLETE_STEP i)))))"
proof -
  have "active_step_started (thinking (dispatch initialState acts))"
    by (rule dispatch_keeps_started [OF initial_started])
  then show ?thesis
    by (simp add: start_step_all_active complete_step_all_done)
qed

theorem C2_active_step_has_started_witness:
  "active_step_started (thinking completed_state)
   \<and> map status (steps (thinking (chatReducer 30 completed_state (START_STEP Plan None None))))
       = [Done, Active, Pending, Pending, Pending]"
proof -
  have "active_step_started (thinking completed_state)"
    using C2_active_step_has_started
      [of "[(10, START_STEP Understand None None), (20, COMPLETE_STEP Understand)]"
          30 Plan None None]
    unfolding completed_state_def by (rule conjunct1)
  then show ?thesis
    by (simp add: completed_state_thinking mk_step_def start_step_def)
qed

section \<open>Simulated stream\<close>















section \<open>Rate-limited typing under reduced motion\<close>

lemma appendText_reduced:
  "appendText speed enabled True now t st
     = st\<lparr> bufferRef := bufferRef st @ t, displayedText := bufferRef st @ t \<rparr>"
  by (simp add: appendText_def Let_def)

lemma append_all_reduced:
  "displayedText (append_all speed enabled True calls st)
     = (if calls = [] then displayedText st else bufferRef st @ concat (map snd calls))
   \<and> bufferRef (append_all speed enabled True calls st) = bufferRef st @ concat (map snd calls)
   \<and> timers (append_all speed enabled True calls st) = timers st
   \<and> timeoutRef (append_all speed enabled True calls st) = timeoutRef st
   \<and> isTyping (append_all speed enabled True calls st) = isTyping st
   \<and> lastUpdateRef (append_all speed enabled True calls st) = lastUpdateRef st"
proof (induction calls arbitrary: st)
  case Nil
  then show ?case by simp
next
  case (Cons c cs)
  obtain now t where c: "c = (now, t)" by (cases c)
  from Cons [of "appendText speed enabled True now t st"]
  show ?case by (simp add: c appendText_reduced)
qed

text \<open>
  C8. With the reduced-motion preference set, after any sequence of \<open>appendText\<close> calls
  on a fresh renderer (whatever the speed, the \<open>enabled\<close> option and the clock readings)
  the displayed text is the concatenation of all the appended texts, equal to the buffer, and
  no timer is scheduled.
\<close>

theorem C8_reduced_motion_shows_text_at_once:
  "displayedText (append_all speed enabled True calls initialTyping) = concat (map snd calls)
   \<and> bufferRef (append_all speed enabled True calls initialTyping) = concat (map snd calls)
   \<and> timers (append_all speed enabled True calls initialTyping) = []
   \<and> timeoutRef (append_all speed enabled True calls initialTyping) = None
   \<and> \<not> isTyping (append_all speed enabled True calls initialTyping)"
  using append_all_reduced [of speed enabled calls initialTyping]
  by (simp add: initialTyping_def)

theorem C8_reduced_motion_witness:
  "displayedText (append_all 60 True True [(5, js ''ab''), (6, js ''cd'')] initialTyping)
     = js ''abcd''
   \<and> timers (append_all 60 True True [(5, js ''ab''), (6, js ''cd'')] initialTyping) = []"
  using C8_reduced_motion_shows_text_at_once [of 60 True "[(5, js ''ab''), (6, js ''cd'')]"]
  by (simp add: js_def)

text \<open>Without the preference the same two calls leave the text hidden behind a timer.\<close>

lemma throttled_calls_wait:
  "displayedText (append_all 60 True False [(5, js ''ab''), (6, js ''cd'')] initialTyping) = []
   \<and> map fst (timers (append_all 60 True False [(5, js ''ab''), (6, js ''cd'')] initialTyping)) = [2]"
  by (simp add: appendText_def initialTyping_def minInterval_def setTimeout_def
      clearTimeout_def Let_def)

section \<open>Chat titles\<close>

lemma length_js_trim: "length (js_trim s) \<le> length s"
proof -
  have "length (js_trim s) \<le> length (dropWhile is_ws s)"
    unfolding js_trim_def by (simp add: length_dropWhile_le order_trans [OF length_dropWhile_le])
  also have "\<dots> \<le> length s" by (rule length_dropWhile_le)
  finally show ?thesis .
qed

lemma length_collapse_ws: "length (collapse_ws s) \<le> length s"
proof (induction s rule: collapse_ws.induct)
  case 1
  then show ?case by simp
next
  case (2 c cs)
  show ?case
  proof (cases "is_ws c")
    case True
    with 2 have "length (collapse_ws (dropWhile is_ws cs)) \<le> length (dropWhile is_ws cs)"
      by simp
    also have "\<dots> \<le> length cs" by (rule length_dropWhile_le)
    finally show ?thesis using True by simp
  next
    case False
    with 2 show ?thesis by simp
  qed
qed

lemma collapse_ws_append:
  "t \<noteq> [] \<Longrightarrow> \<not> is_ws (hd t) \<Longrightarrow> collapse_ws (s @ t) = collapse_ws s @ collapse_ws t"
proof (induction s rule: collapse_ws.induct)
  case 1
  then show ?case by simp
next
  case (2 c cs)
  show ?case
  proof (cases "is_ws c")
    case True
    show ?thesis
    proof (cases "\<forall>x \<in> set cs. is_ws x")
      case all: True
      then have a: "dropWhile is_ws (cs @ t) = t"
        using 2(3,4) by (cases t) (simp_all add: dropWhile_append2)
      from all have "dropWhile is_ws cs = []" by (simp add: dropWhile_eq_Nil_conv)
      then have b: "collapse_ws (dropWhile is_ws cs) = []" by (simp only: collapse_ws.simps)
      have "collapse_ws ((c # cs) @ t) = 0x20 # collapse_ws t"
        using True by (simp add: a)
      moreover have "collapse_ws (c # cs) = [0x20]"
        using True by (simp add: b)
      ultimately show ?thesis by simp
    next
      case False
      then have a: "dropWhile is_ws (cs @ t) = dropWhile is_ws cs @ t"
        by (auto simp: dropWhile_append1)
      from 2(1) [OF True 2(3,4)] True a show ?thesis by simp
    qed
  next
    case False
    with 2 show ?thesis by simp
  qed
qed

lemma dots_not_ws: "\<not> is_ws 0x2E"
  by (simp add: is_ws_def)

lemma collapse_dots: "collapse_ws (js ''...'') = js ''...''"
  by (simp add: js_def is_ws_def)

lemma title_long:
  assumes "find (\<lambda>msg. msg_type msg = User) msgs = Some m"
    and "length (msg_content m) > 50"
  shows "generateChatTitle msgs = collapse_ws (js_trim (take 50 (msg_content m))) @ js ''...''"
proof -
  have "collapse_ws (js_trim (take 50 (msg_content m)) @ js ''...'')
      = collapse_ws (js_trim (take 50 (msg_content m))) @ collapse_ws (js ''...'')"
    by (rule collapse_ws_append) (simp_all add: js_def is_ws_def)
  then show ?thesis
    using assms by (simp add: generateChatTitle_def Let_def collapse_dots) (simp add: js_def)
qed

text \<open>
  C7. When the first user message of a list has exactly 80 code units, the title has at
  most 53 code units and ends in \<open>...\<close>; the title of the empty list is \<open>New Chat\<close>.
\<close>

theorem C7_title_of_long_first_message:
  assumes "find (\<lambda>msg. msg_type msg = User) msgs = Some m"
    and "length (msg_content m) = 80"
  shows "length (generateChatTitle msgs) \<le> 53
       \<and> suffix (js ''...'') (generateChatTitle msgs)
       \<and> generateChatTitle [] = js ''New Chat''"
proof -
  have t: "generateChatTitle msgs = collapse_ws (js_trim (take 50 (msg_content m))) @ js ''...''"
    using assms by (intro title_long) simp_all
  have "length (collapse_ws (js_trim (take 50 (msg_content m))))
      \<le> length (js_trim (take 50 (msg_content m)))"
    by (rule length_collapse_ws)
  also have "\<dots> \<le> length (take 50 (msg_content m))" by (rule length_js_trim)
  also have "\<dots> = 50" using assms(2) by simp
  finally have l: "length (generateChatTitle msgs) \<le> 53"
    by (simp add: t js_def)
  have s: "suffix (js ''...'') (generateChatTitle msgs)"
    by (simp add: t suffix_def)
  have e: "generateChatTitle [] = js ''New Chat''"
    by (simp add: generateChatTitle_def)
  from l s e show ?thesis by simp
qed


theorem C7_title_witness:
  "length (generateChatTitle sample_chat) \<le> 53
   \<and> suffix (js ''...'') (generateChatTitle sample_chat)"
proof -
  have f: "find (\<lambda>msg. msg_type msg = User) sample_chat = Some long_message"
    by (simp add: sample_chat_def long_message_def)
  have l: "length (msg_content long_message) = 80"
    by (simp add: long_message_def)
  from C7_title_of_long_first_message [OF f l] show ?thesis by simp
qed

section \<open>Saving a chat session twice\<close>

lemma b64_encode_take:
  "take (4 * n) (b64_encode xs) = take (4 * n) (b64_encode (take (3 * n) xs))"
proof (induction n arbitrary: xs)
  case 0
  then show ?case by simp
next
  case (Suc n)
  have four: "4 * Suc n = Suc (Suc (Suc (Suc (4 * n))))"
    and three: "3 * Suc n = Suc (Suc (Suc (3 * n)))" by simp_all
  show ?case
  proof (cases xs rule: b64_encode.cases)
    case 1
    then show ?thesis by simp
  next
    case (2 a)
    then show ?thesis by (simp only: three take_Suc_Cons take_Nil)
  next
    case (3 a b)
    then show ?thesis by (simp only: three take_Suc_Cons take_Nil)
  next
    case (4 a b c rest)
    from Suc [of rest] show ?thesis
      by (simp only: 4 four three take_Suc_Cons b64_encode.simps append_Cons append_Nil)
  qed
qed

lemma hash_of_first_12:
  assumes "btoa (serialize a) = Inr x" and "btoa (serialize b) = Inr y"
    and "take 12 (serialize a) = take 12 (serialize b)"
  shows "generateContentHash a = generateContentHash b"
proof -
  from assms(1) have x: "x = b64_encode (map unat (serialize a))"
    by (simp add: btoa_def split: if_splits)
  from assms(2) have y: "y = b64_encode (map unat (serialize b))"
    by (simp add: btoa_def split: if_splits)
  have "take 16 x = take (4 * 4) (b64_encode (take (3 * 4) (map unat (serialize a))))"
    unfolding x using b64_encode_take [of 4 "map unat (serialize a)"] by simp
  also have "take (3 * 4) (map unat (serialize a)) = take (3 * 4) (map unat (serialize b))"
    using assms(3) by (simp add: take_map)
  also have "take (4 * 4) (b64_encode (take (3 * 4) (map unat (serialize b)))) = take 16 y"
    unfolding y using b64_encode_take [of 4 "map unat (serialize b)"] by simp
  finally show ?thesis
    by (simp add: generateContentHash_def assms(1,2))
qed

lemma serialize_cong:
  assumes "map (\<lambda>m. (msg_type m, msg_content m)) msgs' = map (\<lambda>m. (msg_type m, msg_content m)) msgs"
  shows "serialize msgs' = serialize msgs"
proof -
  have "map (\<lambda>msg. type_name (msg_type msg) @ js '':'' @ msg_content msg) ms
      = map (\<lambda>p. type_name (fst p) @ js '':'' @ snd p) (map (\<lambda>m. (msg_type m, msg_content m)) ms)"
    for ms :: "Message list"
    by simp
  then show ?thesis
    unfolding serialize_def using assms by presburger
qed

lemma find_session_length:
  "find_session h ss = Inr (Some i) \<Longrightarrow> i < length ss"
  by (induction ss arbitrary: i) (auto split: sum.splits if_splits option.splits)

lemma find_session_update:
  "find_session h ss = Inr (Some i) \<Longrightarrow> generateContentHash (messages s') = Inr h \<Longrightarrow>
   find_session h (ss[i := s']) = Inr (Some i)"
  by (induction ss arbitrary: i) (auto split: sum.splits if_splits option.splits)


lemma save_found:
  "msgs \<noteq> [] \<Longrightarrow> generateContentHash msgs = Inr h \<Longrightarrow>
   find_session h stored = Inr (Some i) \<Longrightarrow>
   saveChatSession now new_id stored msgs
     = Inr (resave now msgs (stored ! i), stored[i := resave now msgs (stored ! i)])"
  by (simp add: saveChatSession_def resave_def Let_def)

lemma save_returns:
  assumes "saveChatSession now new_id stored msgs = Inr (s, stored')"
  shows "msgs \<noteq> [] \<and> messages s = msgs
       \<and> (\<exists>h i. generateContentHash msgs = Inr h \<and> find_session h stored' = Inr (Some i)
             \<and> i < length stored' \<and> stored' ! i = s)"
proof -
  from assms have ne: "msgs \<noteq> []"
    by (auto simp: saveChatSession_def)
  from assms ne obtain h where h: "generateContentHash msgs = Inr h"
    by (auto simp: saveChatSession_def split: sum.splits)
  from assms ne h obtain r where r: "find_session h stored = Inr r"
    by (auto simp: saveChatSession_def split: sum.splits)
  show ?thesis
  proof (cases r)
    case None
    with assms ne h r have s: "messages s = msgs" and st: "stored' = s # stored"
      by (auto simp: saveChatSession_def Let_def)
    have "find_session h stored' = Inr (Some 0)"
      by (simp add: st s h)
    with ne s h st show ?thesis by auto
  next
    case (Some i)
    from r Some have i: "i < length stored"
      by (simp add: find_session_length)
    from save_found [OF ne h r [unfolded Some], of now new_id] assms
    have s: "s = resave now msgs (stored ! i)" and st: "stored' = stored[i := s]"
      by simp_all
    have m: "messages s = msgs" by (simp add: s resave_def)
    have "find_session h stored' = Inr (Some i)"
      unfolding st using r Some by (intro find_session_update) (simp_all add: m h)
    with ne m h i st show ?thesis by auto
  qed
qed

lemma save_again:
  assumes "saveChatSession now1 id1 stored msgs1 = Inr (s1, stored1)"
    and "msgs2 \<noteq> []"
    and "generateContentHash msgs2 = generateContentHash msgs1"
  shows "\<exists>i<length stored1. stored1 ! i = s1
           \<and> saveChatSession now2 id2 stored1 msgs2
               = Inr (resave now2 msgs2 s1, stored1[i := resave now2 msgs2 s1])"
proof -
  from save_returns [OF assms(1)] obtain h i
    where h: "generateContentHash msgs1 = Inr h"
      and f: "find_session h stored1 = Inr (Some i)"
      and i: "i < length stored1" and s: "stored1 ! i = s1"
    by blast
  from assms(3) h have h2: "generateContentHash msgs2 = Inr h" by simp
  from save_found [OF assms(2) h2 f, of now2 id2] i s show ?thesis by auto
qed

lemma serialize_one: "serialize chat_one = js ''user:hello world 1''"
  by (simp add: serialize_def chat_one_def type_name_def js_def)

lemma serialize_two: "serialize chat_two = js ''user:hello world 2''"
  by (simp add: serialize_def chat_two_def type_name_def js_def)

lemma hash_one: "generateContentHash chat_one = Inr (js ''dXNlcjpoZWxsbyB3'')"
  by (simp add: generateContentHash_def serialize_one btoa_def)
     (simp add: js_def b64_char_def)

lemma hash_two: "generateContentHash chat_two = Inr (js ''dXNlcjpoZWxsbyB3'')"
  by (simp add: generateContentHash_def serialize_two btoa_def)
     (simp add: js_def b64_char_def)

lemma title_one: "generateChatTitle chat_one = js ''hello world 1''"
  by (simp add: generateChatTitle_def chat_one_def js_trim_def Let_def)
     (simp add: js_def is_ws_def)

lemma first_save_one:
  "saveChatSession 100 (js ''k3j9x2m1q'') [] chat_one = Inr (first_session, [first_session])"
proof -
  have "chat_one \<noteq> []" by (simp add: chat_one_def)
  moreover have "preview (msg_content (last chat_one)) = js ''hello world 1''"
    by (simp add: preview_def chat_one_def js_def)
  moreover have "length chat_one = 1" by (simp add: chat_one_def)
  ultimately show ?thesis
    by (simp add: saveChatSession_def hash_one title_one Let_def first_session_def)
qed

lemma hash_latin1:
  "latin1 (serialize msgs) \<Longrightarrow>
   generateContentHash msgs = Inr (take 16 (b64_encode (map unat (serialize msgs))))"
  by (simp add: generateContentHash_def btoa_def latin1_def)

lemma hash_throws:
  "\<not> latin1 (serialize msgs) \<Longrightarrow> generateContentHash msgs = Inl invalidCharacterError"
  by (simp add: generateContentHash_def btoa_def latin1_def invalidCharacterError_def)

lemma find_session_total:
  "hashable_store stored \<Longrightarrow> \<exists>r. find_session h stored = Inr r"
proof (induction stored)
  case Nil
  then show ?case by simp
next
  case (Cons s ss)
  then have l: "latin1 (serialize (messages s))" and ss: "hashable_store ss"
    by (simp_all add: hashable_store_def)
  from Cons.IH [OF ss] obtain r where r: "find_session h ss = Inr r" by blast
  show ?case
    by (cases r) (simp_all add: hash_latin1 [OF l] r)
qed

lemma save_returns_session:
  assumes "msgs \<noteq> []" and "latin1 (serialize msgs)" and "hashable_store stored"
  shows "\<exists>s1 stored1. saveChatSession now new_id stored msgs = Inr (s1, stored1)
           \<and> hashable_store stored1"
proof -
  let ?h = "take 16 (b64_encode (map unat (serialize msgs)))"
  have h: "generateContentHash msgs = Inr ?h" by (rule hash_latin1 [OF assms(2)])
  from find_session_total [OF assms(3)] obtain r where r: "find_session ?h stored = Inr r"
    by blast
  show ?thesis
  proof (cases r)
    case None
    let ?s = "\<lparr> session_id = new_id, title = generateChatTitle msgs,
                lastMessage = preview (msg_content (last msgs)), session_timestamp = now,
                messageCount = length msgs, messages = msgs \<rparr>"
    have "saveChatSession now new_id stored msgs = Inr (?s, ?s # stored)"
      using assms(1) h r None by (simp add: saveChatSession_def Let_def)
    moreover have "hashable_store (?s # stored)"
      using assms(2,3) by (simp add: hashable_store_def)
    ultimately show ?thesis by blast
  next
    case (Some i)
    have eq: "saveChatSession now new_id stored msgs
        = Inr (resave now msgs (stored ! i), stored[i := resave now msgs (stored ! i)])"
      using save_found [OF assms(1) h r [unfolded Some]] .
    have "latin1 (serialize (messages (resave now msgs (stored ! i))))"
      using assms(2) by (simp add: resave_def)
    then have "hashable_store (stored[i := resave now msgs (stored ! i)])"
      using assms(3) set_update_subset_insert [of stored i "resave now msgs (stored ! i)"]
      unfolding hashable_store_def list_all_iff by blast
    with eq show ?thesis by blast
  qed
qed

text \<open>
  Where \<open>btoa\<close> accepts the content, a save and a second save of the same types and
  contents do what is asked: the first call returns a session, the second finds it at its
  place in the stored list and writes it back there with its id and title, so the list
  keeps its length and its ids.
\<close>

lemma save_twice_in_place:
  assumes "msgs \<noteq> []" and "latin1 (serialize msgs)" and "hashable_store stored"
    and "map (\<lambda>m. (msg_type m, msg_content m)) msgs'
           = map (\<lambda>m. (msg_type m, msg_content m)) msgs"
  shows "\<exists>s1 stored1 i s2.
           saveChatSession now1 id1 stored msgs = Inr (s1, stored1)
         \<and> i < length stored1 \<and> stored1 ! i = s1 \<and> messages s1 = msgs
         \<and> saveChatSession now2 id2 stored1 msgs' = Inr (s2, stored1[i := s2])
         \<and> session_id s2 = session_id s1 \<and> title s2 = title s1 \<and> messages s2 = msgs'
         \<and> length (stored1[i := s2]) = length stored1
         \<and> map session_id (stored1[i := s2]) = map session_id stored1"
proof -
  from assms(1,4) have ne: "msgs' \<noteq> []" by auto
  have hh: "generateContentHash msgs' = generateContentHash msgs"
    by (simp add: generateContentHash_def serialize_cong [OF assms(4)])
  from save_returns_session [OF assms(1-3), of now1 id1] obtain s1 stored1
    where r1: "saveChatSession now1 id1 stored msgs = Inr (s1, stored1)" by blast
  from save_again [OF r1 ne hh, of now2 id2]
  obtain i where i: "i < length stored1" and s: "stored1 ! i = s1"
    and r2: "saveChatSession now2 id2 stored1 msgs'
               = Inr (resave now2 msgs' s1, stored1[i := resave now2 msgs' s1])"
    by blast
  from save_returns [OF r1] have m: "messages s1 = msgs" by simp
  have ids: "map session_id (stored1[i := resave now2 msgs' s1]) = map session_id stored1"
    using i s by (simp add: map_update resave_def list_update_same_conv)
  have keep: "session_id (resave now2 msgs' s1) = session_id s1"
    "title (resave now2 msgs' s1) = title s1"
    "messages (resave now2 msgs' s1) = msgs'"
    by (simp_all add: resave_def)
  from r1 i s m r2 ids keep show ?thesis by auto
qed

lemma save_twice_in_place_example:
  "saveChatSession 100 (js ''k3j9x2m1q'') [] chat_one = Inr (first_session, [first_session])
   \<and> saveChatSession 200 (js ''p0o9i8u7y'') [first_session] chat_one
       = Inr (resave 200 chat_one first_session, [resave 200 chat_one first_session])
   \<and> session_id (resave 200 chat_one first_session) = js ''k3j9x2m1q''"
proof -
  have ne: "chat_one \<noteq> []" by (simp add: chat_one_def)
  have l: "latin1 (serialize chat_one)"
    by (simp add: serialize_one latin1_def js_def)
  have e: "hashable_store []" by (simp add: hashable_store_def)
  from save_twice_in_place [OF ne l e refl,
      where ?now1.0 = 100 and ?id1.0 = "js ''k3j9x2m1q''"
        and ?now2.0 = 200 and ?id2.0 = "js ''p0o9i8u7y''"]
  obtain s2 where "saveChatSession 200 (js ''p0o9i8u7y'') [first_session] chat_one
      = Inr (s2, [s2])" and "session_id s2 = session_id first_session"
    by (auto simp: first_save_one)
  moreover from save_again [OF first_save_one ne refl, of 200 "js ''p0o9i8u7y''"]
  have "saveChatSession 200 (js ''p0o9i8u7y'') [first_session] chat_one
      = Inr (resave 200 chat_one first_session, [resave 200 chat_one first_session])"
    by simp
  ultimately show ?thesis
    by (simp add: first_save_one) (simp add: first_session_def)
qed

lemma dash_chat_not_latin1: "\<not> latin1 (serialize dash_chat)"
  by (simp add: serialize_def dash_chat_def type_name_def latin1_def js_def)

text \<open>
  C5 asks of every non-empty message list that a first save stores it and a second save
  updates the stored session in place. The code does not do this for \<open>dash_chat\<close>, the
  chat of the one user message \<open>hi\<close>, space, em dash: \<open>btoa\<close> rejects the code unit
  U+2014, so \<open>generateContentHash\<close> throws before anything is looked up or written.
  Whatever the store, the clock and the drawn id, the first call throws and leaves the
  store as it was, and so does the second; no session of this chat is ever stored.
\<close>

theorem C5_save_throws_on_wide_content:
  "dash_chat \<noteq> []
   \<and> saveChatSession now1 id1 stored dash_chat = Inl invalidCharacterError
   \<and> stored_after stored (saveChatSession now1 id1 stored dash_chat) = stored
   \<and> saveChatSession now2 id2 (stored_after stored (saveChatSession now1 id1 stored dash_chat))
        dash_chat = Inl invalidCharacterError
   \<and> saveChatSession 100 (js ''k3j9x2m1q'') [] dash_chat = Inl invalidCharacterError
   \<and> saveChatSession 200 (js ''p0o9i8u7y'') [] dash_chat = Inl invalidCharacterError"
proof -
  have ne: "dash_chat \<noteq> []" by (simp add: dash_chat_def)
  have t: "saveChatSession now new_id st dash_chat = Inl invalidCharacterError"
    for now new_id st
    using ne by (simp add: saveChatSession_def hash_throws [OF dash_chat_not_latin1])
  from ne show ?thesis by (simp add: t stored_after_def)
qed


section \<open>Two chats with one content hash\<close>

text \<open>
  C9. The chats \<open>chat_one\<close> and \<open>chat_two\<close> differ in their content and have the same
  content hash: the hash is the first 16 characters of the base-64 text, which the first
  12 code units of the serialized \<open>type:content\<close> string determine. So whenever
  \<open>chat_one\<close> has been saved, saving \<open>chat_two\<close> adds no session: it overwrites the
  messages of the session stored for \<open>chat_one\<close>, at its place and under its id. From
  an empty store the two calls leave the one session of \<open>chat_one\<close>, now holding
  \<open>chat_two\<close>.
\<close>

theorem C9_distinct_chats_share_a_hash:
  "map msg_content chat_one \<noteq> map msg_content chat_two
   \<and> generateContentHash chat_one = Inr (js ''dXNlcjpoZWxsbyB3'')
   \<and> generateContentHash chat_two = Inr (js ''dXNlcjpoZWxsbyB3'')
   \<and> (btoa (serialize a) = Inr x \<and> btoa (serialize b) = Inr y
        \<and> take 12 (serialize a) = take 12 (serialize b)
        \<longrightarrow> generateContentHash a = generateContentHash b)
   \<and> (saveChatSession now1 id1 stored chat_one = Inr (s1, stored1)
        \<longrightarrow> (\<exists>i s2. i < length stored1 \<and> stored1 ! i = s1 \<and> messages s1 = chat_one
               \<and> saveChatSession now2 id2 stored1 chat_two = Inr (s2, stored1[i := s2])
               \<and> session_id s2 = session_id s1 \<and> messages s2 = chat_two))
   \<and> saveChatSession 100 (js ''k3j9x2m1q'') [] chat_one = Inr (first_session, [first_session])
   \<and> saveChatSession 200 (js ''p0o9i8u7y'') [first_session] chat_two
       = Inr (resave 200 chat_two first_session, [resave 200 chat_two first_session])
   \<and> session_id (resave 200 chat_two first_session) = js ''k3j9x2m1q''
   \<and> messages (resave 200 chat_two first_session) = chat_two"
proof -
  have d: "map msg_content chat_one \<noteq> map msg_content chat_two"
    by (simp add: chat_one_def chat_two_def js_def)
  have ne: "chat_two \<noteq> []" by (simp add: chat_two_def)
  have hh: "generateContentHash chat_two = generateContentHash chat_one"
    by (simp add: hash_one hash_two)
  have g: "btoa (serialize a) = Inr x \<and> btoa (serialize b) = Inr y
        \<and> take 12 (serialize a) = take 12 (serialize b)
        \<longrightarrow> generateContentHash a = generateContentHash b"
    using hash_of_first_12 by blast
  have u: "saveChatSession now1 id1 stored chat_one = Inr (s1, stored1)
        \<longrightarrow> (\<exists>i s2. i < length stored1 \<and> stored1 ! i = s1 \<and> messages s1 = chat_one
               \<and> saveChatSession now2 id2 stored1 chat_two = Inr (s2, stored1[i := s2])
               \<and> session_id s2 = session_id s1 \<and> messages s2 = chat_two)"
  proof
    assume a: "saveChatSession now1 id1 stored chat_one = Inr (s1, stored1)"
    from save_again [OF a ne hh, of now2 id2]
    obtain i where i: "i < length stored1" "stored1 ! i = s1"
      "saveChatSession now2 id2 stored1 chat_two
         = Inr (resave now2 chat_two s1, stored1[i := resave now2 chat_two s1])"
      by blast
    moreover from save_returns [OF a] have "messages s1 = chat_one" by simp
    moreover have "session_id (resave now2 chat_two s1) = session_id s1"
      "messages (resave now2 chat_two s1) = chat_two"
      by (simp_all add: resave_def)
    ultimately show "\<exists>i s2. i < length stored1 \<and> stored1 ! i = s1 \<and> messages s1 = chat_one
               \<and> saveChatSession now2 id2 stored1 chat_two = Inr (s2, stored1[i := s2])
               \<and> session_id s2 = session_id s1 \<and> messages s2 = chat_two"
      by blast
  qed
  from save_again [OF first_save_one ne hh, of 200 "js ''p0o9i8u7y''"]
  have c: "saveChatSession 200 (js ''p0o9i8u7y'') [first_session] chat_two
       = Inr (resave 200 chat_two first_session, [resave 200 chat_two first_session])"
    by simp
  have r: "session_id (resave 200 chat_two first_session) = js ''k3j9x2m1q''"
    "messages (resave 200 chat_two first_session) = chat_two"
    by (simp_all add: resave_def first_session_def)
  from d hash_one hash_two g u first_save_one c r show ?thesis by blast
qed

theorem C9_distinct_chats_witness:
  "take 12 (serialize chat_one) = take 12 (serialize chat_two)
   \<and> (\<exists>i s2. i < length [first_session] \<and> [first_session] ! i = first_session
         \<and> saveChatSession 200 (js ''p0o9i8u7y'') [first_session] chat_two
             = Inr (s2, [first_session][i := s2])
         \<and> session_id s2 = session_id first_session \<and> messages s2 = chat_two)"
proof -
  have t: "take 12 (serialize chat_one) = take 12 (serialize chat_two)"
    by (simp add: serialize_one serialize_two js_def)
  from C9_distinct_chats_share_a_hash
    [where ?now1.0 = 100 and ?id1.0 = "js ''k3j9x2m1q''" and stored = "[]"
       and ?s1.0 = first_session and ?stored1.0 = "[first_session]"
       and ?now2.0 = 200 and ?id2.0 = "js ''p0o9i8u7y''"]
  have "\<exists>i s2. i < length [first_session] \<and> [first_session] ! i = first_session
         \<and> messages first_session = chat_one
         \<and> saveChatSession 200 (js ''p0o9i8u7y'') [first_session] chat_two
             = Inr (s2, [first_session][i := s2])
         \<and> session_id s2 = session_id first_session \<and> messages s2 = chat_two"
    using first_save_one by blast
  with t show ?thesis by blast
qed

section \<open>Network stream: cancellation and failure\<close>

lemma catch_error_abort:
  "is_abort e \<Longrightarrow>
   catch_error e h = h\<lparr> hook_state := (hook_state h)\<lparr> sse_isStreaming := False \<rparr>,
                         hook_pending := False \<rparr>"
  by (cases e) (simp_all add: is_abort_def)

lemma catch_error_failure:
  "\<not> is_abort e \<Longrightarrow>
   catch_error e h = h\<lparr> hook_state := (hook_state h)\<lparr> sse_isStreaming := False,
                            sse_error := Some (failure_message e) \<rparr>,
                         hook_events := hook_events h @ [OnError (failure_message e)],
                         hook_pending := False \<rparr>"
  by (cases e) (simp_all add: is_abort_def failure_message_def Let_def)

lemma catch_error_not_pending: "\<not> hook_pending (catch_error e h)"
  by (cases "is_abort e") (simp_all add: catch_error_abort catch_error_failure)

lemma signals_done_add_chunk:
  "chunk_done c \<noteq> Some True \<Longrightarrow> signals_done (add_chunk c h) = signals_done h"
  by (simp add: signals_done_def add_chunk_def list_ex_iff)

lemma process_lines_keeps:
  "process_lines parse ls h = (h', fin) \<Longrightarrow>
   sse_error (hook_state h') = sse_error (hook_state h)
   \<and> hook_controller h' = hook_controller h
   \<and> hook_pending h' = (if fin then False else hook_pending h)
   \<and> sse_isStreaming (hook_state h') = (if fin then False else sse_isStreaming (hook_state h))
   \<and> (if fin then True else signals_done h' = signals_done h)"
proof (induction ls arbitrary: h)
  case Nil
  then show ?case by auto
next
  case (Cons l ls)
  let ?payload = "if take 6 l = js ''data: '' then drop 6 l else l"
  consider (blank) "js_trim l = []"
    | (finished) "js_trim l \<noteq> []" "take 6 l = js ''data: '' \<and> drop 6 l = js ''[DONE]''"
    | (skipped) "js_trim l \<noteq> []" "\<not> (take 6 l = js ''data: '' \<and> drop 6 l = js ''[DONE]'')"
        "parse ?payload = None"
    | (last_chunk) c where "js_trim l \<noteq> []"
        "\<not> (take 6 l = js ''data: '' \<and> drop 6 l = js ''[DONE]'')"
        "parse ?payload = Some c" "chunk_done c = Some True"
    | (chunk) c where "js_trim l \<noteq> []"
        "\<not> (take 6 l = js ''data: '' \<and> drop 6 l = js ''[DONE]'')"
        "parse ?payload = Some c" "chunk_done c \<noteq> Some True"
    by (cases "parse ?payload") blast+
  then show ?case
  proof cases
    case blank
    then have "process_lines parse (l # ls) h = process_lines parse ls h" by simp
    with Cons.prems have "process_lines parse ls h = (h', fin)" by simp
    from Cons.IH [OF this] show ?thesis .
  next
    case finished
    then have "process_lines parse (l # ls) h = (complete h, True)" by simp
    with Cons.prems have "h' = complete h" "fin" by simp_all
    then show ?thesis by (simp add: complete_def)
  next
    case skipped
    then have "process_lines parse (l # ls) h = process_lines parse ls h"
      by (simp only: process_lines.simps if_False option.case)
    with Cons.prems have "process_lines parse ls h = (h', fin)" by simp
    from Cons.IH [OF this] show ?thesis .
  next
    case (last_chunk c)
    then have "process_lines parse (l # ls) h = (complete (add_chunk c h), True)"
      by (simp only: process_lines.simps if_False if_True option.case simp_thms)
    with Cons.prems have "h' = complete (add_chunk c h)" "fin" by simp_all
    then show ?thesis by (simp add: complete_def add_chunk_def)
  next
    case (chunk c)
    then have "process_lines parse (l # ls) h = process_lines parse ls (add_chunk c h)"
      by (simp only: process_lines.simps if_False option.case)
    with Cons.prems have "process_lines parse ls (add_chunk c h) = (h', fin)" by simp
    from Cons.IH [OF this] signals_done_add_chunk [OF chunk(4), of h] show ?thesis
      by (simp add: add_chunk_def)
  qed
qed

lemma read_loop_pending:
  "hook_pending (read_loop parse reads buffer h) \<Longrightarrow>
   sse_error (hook_state (read_loop parse reads buffer h)) = sse_error (hook_state h)
   \<and> sse_isStreaming (hook_state (read_loop parse reads buffer h))
       = sse_isStreaming (hook_state h)
   \<and> hook_controller (read_loop parse reads buffer h) = hook_controller h
   \<and> signals_done (read_loop parse reads buffer h) = signals_done h"
proof (induction parse reads buffer h rule: read_loop.induct)
  case (1 parse buffer h)
  then show ?case by (simp add: signals_done_def)
next
  case (2 parse e rs buffer h)
  then show ?case by (simp add: catch_error_not_pending)
next
  case (3 parse rs buffer h)
  then show ?case by (simp add: complete_def)
next
  case (4 parse v rs buffer h)
  let ?lines = "split_on 0xA (buffer @ v)"
  let ?r = "process_lines parse (butlast ?lines) h"
  have k: "sse_error (hook_state (fst ?r)) = sse_error (hook_state h)
     \<and> hook_controller (fst ?r) = hook_controller h
     \<and> hook_pending (fst ?r) = (if snd ?r then False else hook_pending h)
     \<and> sse_isStreaming (hook_state (fst ?r))
         = (if snd ?r then False else sse_isStreaming (hook_state h))
     \<and> (if snd ?r then True else signals_done (fst ?r) = signals_done h)"
    by (rule process_lines_keeps) simp
  show ?case
  proof (cases "snd ?r")
    case True
    then have "read_loop parse (ReadValue v # rs) buffer h = fst ?r"
      by (simp add: Let_def)
    with 4(2) k True show ?thesis by simp
  next
    case False
    then have eq: "read_loop parse (ReadValue v # rs) buffer h
        = read_loop parse rs (last ?lines) (fst ?r)"
      by (simp add: Let_def)
    with 4(2) have p: "hook_pending (read_loop parse rs (last ?lines) (fst ?r))" by simp
    from 4(1) [OF refl refl False p] k False show ?thesis
      by (simp only: eq) simp
  qed
qed

lemma startStream_pending:
  assumes "hook_pending (startStream parse fetched reads h0)"
  shows "sse_error (hook_state (startStream parse fetched reads h0)) = None
       \<and> sse_isStreaming (hook_state (startStream parse fetched reads h0))
       \<and> hook_controller (startStream parse fetched reads h0)
       \<and> signals_done (startStream parse fetched reads h0)
            = list_ex (\<lambda>ev. ev = OnComplete) (hook_events h0)"
proof -
  let ?h = "h0\<lparr> hook_controller := True, hook_state := startedStream, hook_pending := False \<rparr>"
  consider (waiting) "fetched = None"
    | (thrown) e where "startStream parse fetched reads h0 = catch_error e ?h"
    | (reading) "startStream parse fetched reads h0 = read_loop parse reads [] ?h"
  proof (cases fetched)
    case None
    then show ?thesis using that by simp
  next
    case (Some f)
    show ?thesis
    proof (cases f)
      case (FetchThrows e)
      with Some have "startStream parse fetched reads h0 = catch_error e ?h"
        by (simp add: startStream_def)
      then show ?thesis by (rule that(2))
    next
      case (Response ok code body)
      show ?thesis
      proof (cases ok)
        case False
        with Some Response have "startStream parse fetched reads h0
            = catch_error (JsError (js ''Error'') (js ''HTTP error! status: '' @ decimal code)) ?h"
          by (simp add: startStream_def del: decimal.simps)
        then show ?thesis by (rule that(2))
      next
        case True
        show ?thesis
        proof (cases body)
          case False
          with True Some Response have "startStream parse fetched reads h0
              = catch_error (JsError (js ''Error'') (js ''Response body is not readable'')) ?h"
            by (simp add: startStream_def)
          then show ?thesis by (rule that(2))
        next
          case body: True
          with True Some Response
          have "startStream parse fetched reads h0 = read_loop parse reads [] ?h"
            by (simp add: startStream_def)
          then show ?thesis by (rule that(3))
        qed
      qed
    qed
  qed
  then show ?thesis
  proof cases
    case waiting
    then show ?thesis by (simp add: startStream_def startedStream_def signals_done_def)
  next
    case (thrown e)
    with assms show ?thesis by (simp add: catch_error_not_pending)
  next
    case reading
    from assms read_loop_pending [of parse reads "[]" ?h]
    show ?thesis by (simp add: reading startedStream_def signals_done_def)
  qed
qed


lemma catch_error_pending_irrelevant:
  "catch_error e (h\<lparr> hook_pending := b \<rparr>) = catch_error e h"
  by (cases "is_abort e") (simp_all add: catch_error_abort catch_error_failure)

lemma read_loop_then_throws:
  "hook_pending (read_loop parse reads buffer h) \<Longrightarrow>
   read_loop parse (reads @ [ReadThrows e]) buffer h
     = catch_error e (read_loop parse reads buffer h)"
proof (induction parse reads buffer h rule: read_loop.induct)
  case (1 parse buffer h)
  then show ?case by (simp add: catch_error_pending_irrelevant)
next
  case (2 parse e' rs buffer h)
  then show ?case by (simp add: catch_error_not_pending)
next
  case (3 parse rs buffer h)
  then show ?case by (simp add: complete_def)
next
  case (4 parse v rs buffer h)
  let ?lines = "split_on 0xA (buffer @ v)"
  let ?r = "process_lines parse (butlast ?lines) h"
  have k: "hook_pending (fst ?r) = (if snd ?r then False else hook_pending h)"
    using process_lines_keeps [of parse "butlast ?lines" h "fst ?r" "snd ?r"] by simp
  show ?case
  proof (cases "snd ?r")
    case True
    then have "read_loop parse (ReadValue v # rs) buffer h = fst ?r"
      by (simp add: Let_def)
    with 4(2) k True show ?thesis by simp
  next
    case False
    then have eq: "read_loop parse (ReadValue v # rs) buffer h
        = read_loop parse rs (last ?lines) (fst ?r)"
      and eq': "read_loop parse ((ReadValue v # rs) @ [ReadThrows e]) buffer h
        = read_loop parse (rs @ [ReadThrows e]) (last ?lines) (fst ?r)"
      by (simp_all add: Let_def)
    with 4(2) have p: "hook_pending (read_loop parse rs (last ?lines) (fst ?r))" by simp
    from 4(1) [OF refl refl False p] show ?thesis
      by (simp only: eq eq')
  qed
qed

lemma startStream_then_read_throws:
  assumes "hook_pending (startStream parse (Some (Response True code True)) reads h0)"
  shows "startStream parse (Some (Response True code True)) (reads @ [ReadThrows e]) h0
       = catch_error e (startStream parse (Some (Response True code True)) reads h0)"
  using assms by (simp add: startStream_def read_loop_then_throws)

lemma startStream_then_fetch_throws:
  "startStream parse (Some (FetchThrows e)) reads h0
     = catch_error e (startStream parse None reads h0)"
  by (simp add: startStream_def catch_error_pending_irrelevant)

lemma waiting_run_value:
  "waiting_run = \<lparr> hook_state = \<lparr> sse_isStreaming = True, sse_error = None,
       sse_chunks = [\<lparr> chunk_id = js ''m1'', delta = js ''Hi'', chunk_done = None,
                        chunk_error = None \<rparr>],
       sse_content = js ''Hi'' \<rparr>,
     hook_events = [OnChunk \<lparr> chunk_id = js ''m1'', delta = js ''Hi'', chunk_done = None,
                        chunk_error = None \<rparr>],
     hook_controller = True, hook_pending = True \<rparr>"
  by (simp add: waiting_run_def startStream_def idleHook_def idleStream_def startedStream_def
      sample_parse_def js_def js_trim_def is_ws_def add_chunk_def Let_def)

lemma failed_run_value: "failed_run = catch_error network_error waiting_run"
  unfolding failed_run_def waiting_run_def
  using startStream_then_read_throws
    [of sample_parse 200 "[ReadValue (js ''data: {\"id\":\"m1\",\"delta\":\"Hi\"}'' @ [0xA])]"
        idleHook network_error]
  by (simp add: waiting_run_value [unfolded waiting_run_def])

text \<open>
  C6, as stated, fails in its last part. A stream delivers one chunk and then its read
  fails with a network error: the hook sets \<open>error\<close> to the message, clears
  \<open>isStreaming\<close> and calls \<open>onError\<close>, but nothing carries \<open>done = true\<close>: the
  hook's state has no such flag, no chunk with \<open>done = true\<close> is recorded or emitted, and
  \<open>onComplete\<close> is not called.
\<close>

theorem C6_counterexample:
  "sse_error (hook_state failed_run) = Some (js ''network error'')
   \<and> \<not> sse_isStreaming (hook_state failed_run)
   \<and> map chunk_done (sse_chunks (hook_state failed_run)) = [None]
   \<and> hook_events failed_run
       = [OnChunk \<lparr> chunk_id = js ''m1'', delta = js ''Hi'', chunk_done = None,
                     chunk_error = None \<rparr>,
          OnError (js ''network error'')]
   \<and> \<not> signals_done failed_run"
  by (simp add: failed_run_value waiting_run_value network_error_def signals_done_def Let_def)
     (simp add: js_def)


lemma abortError_is_abort: "is_abort abortError"
  by (simp add: is_abort_def abortError_def)

lemma cancelStream_in_flight:
  assumes "hook_pending h" and "hook_controller h"
  shows "cancelStream h = h\<lparr> hook_state := (hook_state h)\<lparr> sse_isStreaming := False \<rparr>,
                            hook_pending := False \<rparr>"
  using assms by (simp add: cancelStream_def Let_def catch_error_abort [OF abortError_is_abort])

lemma signals_done_failure:
  "\<not> is_abort e \<Longrightarrow> signals_done (catch_error e h) = signals_done h"
  by (simp add: catch_error_failure signals_done_def list_ex_iff)

text \<open>
  C6, amended. While a network stream is in flight (its \<open>startStream\<close> waits for the
  fetch or for a read), \<open>cancelStream\<close> leaves \<open>isStreaming = false\<close> with \<open>error\<close>
  unset and calls no callback, and so does an \<open>AbortError\<close> that reaches the
  \<open>catch\<close>. Any other thrown value sets \<open>error\<close> to the failure message (the
  error's message, \<open>Stream failed\<close> when that is empty, \<open>Unknown stream error\<close> for a
  value that is not an error) and \<open>isStreaming = false\<close> and passes the message to
  \<open>onError\<close>; it records no chunk and signals no completion, so the run has signalled
  \<open>done\<close> only if the hook had called \<open>onComplete\<close> before it started. \<open>done = true\<close>
  together with the error is what the chat reducer sets when \<open>errorStreaming\<close> is
  dispatched with the message.
\<close>

theorem C6_abort_is_silent_and_failure_is_reported:
  assumes "hook_pending (startStream parse fetched reads h0)"
  shows "\<not> sse_isStreaming (hook_state (cancelStream (startStream parse fetched reads h0)))
       \<and> sse_error (hook_state (cancelStream (startStream parse fetched reads h0))) = None
       \<and> hook_events (cancelStream (startStream parse fetched reads h0))
           = hook_events (startStream parse fetched reads h0)
       \<and> (if is_abort e
           then \<not> sse_isStreaming (hook_state (catch_error e (startStream parse fetched reads h0)))
              \<and> sse_error (hook_state (catch_error e (startStream parse fetched reads h0))) = None
              \<and> hook_events (catch_error e (startStream parse fetched reads h0))
                  = hook_events (startStream parse fetched reads h0)
           else \<not> sse_isStreaming (hook_state (catch_error e (startStream parse fetched reads h0)))
              \<and> sse_error (hook_state (catch_error e (startStream parse fetched reads h0)))
                  = Some (failure_message e)
              \<and> hook_events (catch_error e (startStream parse fetched reads h0))
                  = hook_events (startStream parse fetched reads h0) @ [OnError (failure_message e)]
              \<and> sse_chunks (hook_state (catch_error e (startStream parse fetched reads h0)))
                  = sse_chunks (hook_state (startStream parse fetched reads h0))
              \<and> signals_done (catch_error e (startStream parse fetched reads h0))
                  = list_ex (\<lambda>ev. ev = OnComplete) (hook_events h0))
       \<and> stream_done (streaming (chatReducer now s (ERROR_STREAMING (failure_message e))))
       \<and> stream_error (streaming (chatReducer now s (ERROR_STREAMING (failure_message e))))
           = Some (failure_message e)
       \<and> \<not> isStreaming (streaming (chatReducer now s (ERROR_STREAMING (failure_message e))))"
proof -
  let ?r = "startStream parse fetched reads h0"
  note p = startStream_pending [OF assms]
  have c: "cancelStream ?r = ?r\<lparr> hook_state := (hook_state ?r)\<lparr> sse_isStreaming := False \<rparr>,
                                  hook_pending := False \<rparr>"
    using assms p by (intro cancelStream_in_flight) simp_all
  have cancel: "\<not> sse_isStreaming (hook_state (cancelStream ?r))
      \<and> sse_error (hook_state (cancelStream ?r)) = None
      \<and> hook_events (cancelStream ?r) = hook_events ?r"
    using p by (simp add: c)
  have thrown: "if is_abort e
           then \<not> sse_isStreaming (hook_state (catch_error e ?r))
              \<and> sse_error (hook_state (catch_error e ?r)) = None
              \<and> hook_events (catch_error e ?r) = hook_events ?r
           else \<not> sse_isStreaming (hook_state (catch_error e ?r))
              \<and> sse_error (hook_state (catch_error e ?r)) = Some (failure_message e)
              \<and> hook_events (catch_error e ?r) = hook_events ?r @ [OnError (failure_message e)]
              \<and> sse_chunks (hook_state (catch_error e ?r)) = sse_chunks (hook_state ?r)
              \<and> signals_done (catch_error e ?r)
                  = list_ex (\<lambda>ev. ev = OnComplete) (hook_events h0)"
  proof (cases "is_abort e")
    case True
    with p show ?thesis by (simp add: catch_error_abort)
  next
    case False
    with p signals_done_failure [OF False, of ?r] show ?thesis
      by (simp add: catch_error_failure)
  qed
  have reducer: "stream_done (streaming (chatReducer now s (ERROR_STREAMING (failure_message e))))
       \<and> stream_error (streaming (chatReducer now s (ERROR_STREAMING (failure_message e))))
           = Some (failure_message e)
       \<and> \<not> isStreaming (streaming (chatReducer now s (ERROR_STREAMING (failure_message e))))"
    by simp
  from cancel thrown reducer show ?thesis by blast
qed

theorem C6_abort_and_failure_witness:
  "hook_pending waiting_run
   \<and> \<not> sse_isStreaming (hook_state (cancelStream waiting_run))
   \<and> sse_error (hook_state (cancelStream waiting_run)) = None
   \<and> sse_error (hook_state (catch_error network_error waiting_run)) = Some (js ''network error'')
   \<and> \<not> signals_done (catch_error network_error waiting_run)"
proof -
  have p: "hook_pending waiting_run" by (simp add: waiting_run_value)
  have n: "\<not> is_abort network_error"
    by (simp add: is_abort_def network_error_def js_def)
  have m: "failure_message network_error = js ''network error''"
    by (simp add: failure_message_def network_error_def js_def)
  have e: "hook_events idleHook = []" by (simp add: idleHook_def)
  from C6_abort_is_silent_and_failure_is_reported
    [OF p [unfolded waiting_run_def], folded waiting_run_def, where e = network_error]
  show ?thesis using p n m e by simp
qed

section \<open>Network stream: accumulated content\<close>

text \<open>
  Whatever the network does, the content that \<open>startStream\<close> accumulates is the
  concatenation of the deltas of the chunks it has recorded.
\<close>

lemma content_ok_steps:
  "content_ok h \<Longrightarrow> content_ok (add_chunk c h)"
  "content_ok h \<Longrightarrow> content_ok (complete h)"
  "content_ok h \<Longrightarrow> content_ok (catch_error e h)"
  "content_ok h \<Longrightarrow> content_ok (h\<lparr> hook_pending := b \<rparr>)"
  by (cases "is_abort e";
      simp add: content_ok_def add_chunk_def complete_def catch_error_abort catch_error_failure)+

lemma content_ok_flags:
  "content_ok (h\<lparr> hook_pending := b \<rparr>) = content_ok h"
  "content_ok (h\<lparr> hook_controller := b \<rparr>) = content_ok h"
  by (simp_all add: content_ok_def)

lemma process_lines_content:
  "content_ok h \<Longrightarrow> content_ok (fst (process_lines parse ls h))"
  by (induction parse ls h rule: process_lines.induct)
     (simp_all add: content_ok_steps split: option.split)

lemma read_loop_content:
  "content_ok h \<Longrightarrow> content_ok (read_loop parse reads buffer h)"
  by (induction parse reads buffer h rule: read_loop.induct)
     (simp_all add: content_ok_steps process_lines_content Let_def)

lemma startStream_content:
  "sse_content (hook_state (startStream parse fetched reads h0))
     = concat (map delta (sse_chunks (hook_state (startStream parse fetched reads h0))))"
proof -
  let ?h = "h0\<lparr> hook_controller := True, hook_state := startedStream, hook_pending := False \<rparr>"
  have "content_ok ?h" by (simp add: content_ok_def startedStream_def)
  then have "content_ok (startStream parse fetched reads h0)"
    by (simp add: startStream_def content_ok_steps content_ok_flags read_loop_content
        Let_def split: option.split fetch_result.split del: decimal.simps catch_error.simps)
  then show ?thesis by (simp add: content_ok_def)
qed


end
